theory Spec2Isabelle
  imports Complex_Main
begin

section \<open>Failures of the program\<close>

text \<open>
  Every \<^verbatim>\<open>Assert\<close> of the sources is a failure of its own, named after its message.
  \<open>OutOfRange\<close> stands for an index outside a vector (a guarded vector aborts there).
\<close>

datatype error =
    OutOfRange
  | NoValidEdge
  | ImaginaryProbability
  | ImaginaryCount
  | NotWildcard
  | MultipleRoots
  | NonBinaryTree
  | EmptyChoice
  | RowCountMismatch
  | NonFinite

section \<open>span.cpp: the partition of the sequences\<close>

record Edge =
  row1 :: nat
  row2 :: nat
  lp :: real

record Partition =
  seqSetIdx :: "nat list"
  seqSet :: "nat set list"
  nSets :: nat

text \<open>\<^verbatim>\<open>--nSets\<close> on a \<^verbatim>\<open>size_t\<close> (64 bits): zero wraps around.\<close>

definition dec_size_t :: "nat \<Rightarrow> nat" where
  "dec_size_t n = (if n = 0 then 2 ^ 64 - 1 else n - 1)"

text \<open>The constructor: \<open>n\<close> singletons, element \<open>i\<close> in set \<open>i\<close>.\<close>

definition Partition_new :: "nat \<Rightarrow> Partition" where
  "Partition_new n =
     fold (\<lambda>i p. p\<lparr>seqSetIdx := (seqSetIdx p)[i := i],
                    seqSet := (seqSet p)[i := insert i (seqSet p ! i)]\<rparr>)
       [0..<n]
       \<lparr>seqSetIdx = replicate n 0, seqSet = replicate n {}, nSets = n\<rparr>"

definition inSameSet :: "Partition \<Rightarrow> Edge \<Rightarrow> error + bool" where
  "inSameSet p e =
     (if row1 e < length (seqSetIdx p) \<and> row2 e < length (seqSetIdx p)
      then Inr (seqSetIdx p ! row1 e = seqSetIdx p ! row2 e)
      else Inl OutOfRange)"

text \<open>The loop \<^verbatim>\<open>for (auto n2 : set2) seqSetIdx[n2] = idx1\<close>, in the order of the set.\<close>

definition relabel :: "nat set \<Rightarrow> nat \<Rightarrow> nat list \<Rightarrow> nat list" where
  "relabel set2 idx1 idx = fold (\<lambda>n2 xs. xs[n2 := idx1]) (sorted_list_of_set set2) idx"

definition merge :: "Partition \<Rightarrow> Edge \<Rightarrow> error + Partition" where
  "merge p e =
     (case inSameSet p e of
        Inl err \<Rightarrow> Inl err
      | Inr True \<Rightarrow> Inr p
      | Inr False \<Rightarrow>
          (let i1 = seqSetIdx p ! row1 e;
               i2 = seqSetIdx p ! row2 e;
               idx1 = (if i1 > i2 then i2 else i1);
               idx2 = (if i1 > i2 then i1 else i2)
           in if \<not> idx2 < length (seqSet p) then Inl OutOfRange
              else
                (let set1 = seqSet p ! idx1;
                     set2 = seqSet p ! idx2
                 in if \<not> set2 \<subseteq> {..<length (seqSetIdx p)} then Inl OutOfRange
                    else Inr \<lparr>seqSetIdx = relabel set2 idx1 (seqSetIdx p),
                              seqSet = ((seqSet p)[idx1 := set1 \<union> set2])[idx2 := {}],
                              nSets = dec_size_t (nSets p)\<rparr>)))"

definition edge :: "nat \<Rightarrow> nat \<Rightarrow> real \<Rightarrow> Edge" where
  "edge a b w = \<lparr>row1 = a, row2 = b, lp = w\<rparr>"

section \<open>Properties of the partition\<close>

lemma Partition_new_fold:
  "k \<le> n \<Longrightarrow>
   fold (\<lambda>i p. p\<lparr>seqSetIdx := (seqSetIdx p)[i := i],
                  seqSet := (seqSet p)[i := insert i (seqSet p ! i)]\<rparr>)
     [0..<k]
     \<lparr>seqSetIdx = replicate n 0, seqSet = replicate n {}, nSets = n\<rparr>
   = \<lparr>seqSetIdx = [0..<k] @ replicate (n - k) 0,
      seqSet = map (\<lambda>i. {i}) [0..<k] @ replicate (n - k) {},
      nSets = n\<rparr>"
proof (induction k)
  case 0
  then show ?case by simp
next
  case (Suc k)
  then have k: "k < n" by simp
  then have r: "n - k = Suc (n - Suc k)" by simp
  show ?case using Suc k
    by (simp add: list_update_append r nth_append)
qed

lemma Partition_new_eq:
  "Partition_new n = \<lparr>seqSetIdx = [0..<n], seqSet = map (\<lambda>i. {i}) [0..<n], nSets = n\<rparr>"
  unfolding Partition_new_def using Partition_new_fold [of n n] by simp

lemma relabel_length [simp]: "length (relabel s i xs) = length xs"
proof -
  have "length (fold (\<lambda>n2 xs. xs[n2 := i]) ys xs) = length xs" for ys
    by (induction ys arbitrary: xs) simp_all
  then show ?thesis by (simp add: relabel_def)
qed

lemma relabel_nth:
  assumes "finite s" "n < length xs"
  shows "relabel s i xs ! n = (if n \<in> s then i else xs ! n)"
proof -
  have "n < length xs \<Longrightarrow>
        fold (\<lambda>n2 xs. xs[n2 := i]) ys xs ! n = (if n \<in> set ys then i else xs ! n)" for ys
    by (induction ys arbitrary: xs) (auto simp: nth_list_update)
  with assms show ?thesis by (simp add: relabel_def)
qed

text \<open>
  C6. From five singletons, merging the edges (1,3), (0,4) and (3,4) goes through the
  states below: each merge moves the members of the set with the larger index into the
  set with the smaller one and relabels them, the emptied set stays in its place, and
  at the end \<open>nSets\<close> is 2 and the non-empty sets are {0,1,3,4} and {2}. The scores of
  the edges play no part.
\<close>

theorem partition_merge_scenario:
  "Partition_new 5 =
     \<lparr>seqSetIdx = [0, 1, 2, 3, 4], seqSet = [{0}, {1}, {2}, {3}, {4}], nSets = 5\<rparr>
   \<and> merge (Partition_new 5) (edge 1 3 w1) =
     Inr \<lparr>seqSetIdx = [0, 1, 2, 1, 4], seqSet = [{0}, {1, 3}, {2}, {}, {4}], nSets = 4\<rparr>
   \<and> merge \<lparr>seqSetIdx = [0, 1, 2, 1, 4], seqSet = [{0}, {1, 3}, {2}, {}, {4}], nSets = 4\<rparr>
       (edge 0 4 w2) =
     Inr \<lparr>seqSetIdx = [0, 1, 2, 1, 0], seqSet = [{0, 4}, {1, 3}, {2}, {}, {}], nSets = 3\<rparr>
   \<and> merge \<lparr>seqSetIdx = [0, 1, 2, 1, 0], seqSet = [{0, 4}, {1, 3}, {2}, {}, {}], nSets = 3\<rparr>
       (edge 3 4 w3) =
     Inr \<lparr>seqSetIdx = [0, 0, 2, 0, 0], seqSet = [{0, 1, 3, 4}, {}, {2}, {}, {}], nSets = 2\<rparr>
   \<and> filter (\<lambda>s. s \<noteq> {}) [{0, 1, 3, 4}, {}, {2}, {}, {}] = [{0, 1, 3, 4}, {2 :: nat}]"
proof -
  have n: "Partition_new 5 =
     \<lparr>seqSetIdx = [0, 1, 2, 3, 4], seqSet = [{0}, {1}, {2}, {3}, {4}], nSets = 5\<rparr>"
    by (simp add: Partition_new_eq upt_rec)
  have m1: "merge \<lparr>seqSetIdx = [0, 1, 2, 3, 4], seqSet = [{0}, {1}, {2}, {3}, {4}], nSets = 5\<rparr>
       (edge 1 3 w1) =
     Inr \<lparr>seqSetIdx = [0, 1, 2, 1, 4], seqSet = [{0}, {1, 3}, {2}, {}, {4}], nSets = 4\<rparr>"
    by (simp add: merge_def inSameSet_def edge_def relabel_def dec_size_t_def Let_def
        insert_commute)
  have m2: "merge \<lparr>seqSetIdx = [0, 1, 2, 1, 4], seqSet = [{0}, {1, 3}, {2}, {}, {4}], nSets = 4\<rparr>
       (edge 0 4 w2) =
     Inr \<lparr>seqSetIdx = [0, 1, 2, 1, 0], seqSet = [{0, 4}, {1, 3}, {2}, {}, {}], nSets = 3\<rparr>"
    by (simp add: merge_def inSameSet_def edge_def relabel_def dec_size_t_def Let_def
        insert_commute)
  have m3: "merge \<lparr>seqSetIdx = [0, 1, 2, 1, 0], seqSet = [{0, 4}, {1, 3}, {2}, {}, {}], nSets = 3\<rparr>
       (edge 3 4 w3) =
     Inr \<lparr>seqSetIdx = [0, 0, 2, 0, 0], seqSet = [{0, 1, 3, 4}, {}, {2}, {}, {}], nSets = 2\<rparr>"
    by (simp add: merge_def inSameSet_def edge_def relabel_def dec_size_t_def Let_def
        insert_commute)
  have f: "filter (\<lambda>s. s \<noteq> {}) [{0, 1, 3, 4}, {}, {2}, {}, {}] = [{0, 1, 3, 4}, {2 :: nat}]"
    by simp
  show ?thesis
    unfolding n using m1 m2 m3 f by (intro conjI) simp_all
qed

text \<open>
  The partitions that the program holds: the one the constructor builds, after any run of
  calls of \<open>merge\<close>.
\<close>

fun merge_all :: "Partition \<Rightarrow> Edge list \<Rightarrow> error + Partition" where
  "merge_all p [] = Inr p"
| "merge_all p (e # es) = (case merge p e of Inl err \<Rightarrow> Inl err | Inr q \<Rightarrow> merge_all q es)"

text \<open>
  In such a partition the two tables agree: every row is a member of the set that
  \<open>seqSetIdx\<close> names for it, and every member of a set is a row that \<open>seqSetIdx\<close> sends to
  that set.
\<close>

definition Partition_ok :: "Partition \<Rightarrow> bool" where
  "Partition_ok p =
     (length (seqSet p) = length (seqSetIdx p)
      \<and> (\<forall>v<length (seqSetIdx p).
            seqSetIdx p ! v < length (seqSet p) \<and> v \<in> seqSet p ! (seqSetIdx p ! v))
      \<and> (\<forall>k<length (seqSet p).
            finite (seqSet p ! k)
            \<and> (\<forall>v\<in>seqSet p ! k. v < length (seqSetIdx p) \<and> seqSetIdx p ! v = k)))"

lemma Partition_new_ok: "Partition_ok (Partition_new n)"
  by (simp add: Partition_ok_def Partition_new_eq)

lemma merge_different:
  assumes ok: "Partition_ok p" and ne: "inSameSet p e = Inr False"
  shows "\<exists>q. merge p e = Inr q \<and> Partition_ok q \<and> inSameSet q e = Inr True"
proof -
  let ?n = "length (seqSetIdx p)"
  let ?i1 = "seqSetIdx p ! row1 e"
  let ?i2 = "seqSetIdx p ! row2 e"
  define idx1 where "idx1 = (if ?i1 > ?i2 then ?i2 else ?i1)"
  define idx2 where "idx2 = (if ?i1 > ?i2 then ?i1 else ?i2)"
  define set1 where "set1 = seqSet p ! idx1"
  define set2 where "set2 = seqSet p ! idx2"
  define q where "q = \<lparr>seqSetIdx = relabel set2 idx1 (seqSetIdx p),
                        seqSet = ((seqSet p)[idx1 := set1 \<union> set2])[idx2 := {}],
                        nSets = dec_size_t (nSets p)\<rparr>"
  have rows: "row1 e < ?n" "row2 e < ?n" and diff: "?i1 \<noteq> ?i2"
    using ne by (simp_all add: inSameSet_def split: if_splits)
  have len: "length (seqSet p) = ?n"
    and idx: "\<And>v. v < ?n \<Longrightarrow> seqSetIdx p ! v < ?n"
    and mem: "\<And>v. v < ?n \<Longrightarrow> v \<in> seqSet p ! (seqSetIdx p ! v)"
    and fin: "\<And>k. k < ?n \<Longrightarrow> finite (seqSet p ! k)"
    and members: "\<And>k v. k < ?n \<Longrightarrow> v \<in> seqSet p ! k \<Longrightarrow> v < ?n \<and> seqSetIdx p ! v = k"
    using ok unfolding Partition_ok_def by auto
  have i12: "idx1 < ?n" "idx2 < ?n" "idx1 \<noteq> idx2"
    using idx [OF rows(1)] idx [OF rows(2)] diff by (simp_all add: idx1_def idx2_def)
  have fin2: "finite set2" using fin [OF i12(2)] by (simp add: set2_def)
  have sub: "set2 \<subseteq> {..<?n}" using members [OF i12(2)] by (auto simp: set2_def)
  have new_idx: "seqSetIdx q ! v = (if v \<in> set2 then idx1 else seqSetIdx p ! v)"
    if "v < ?n" for v
    using relabel_nth [OF fin2 that, of idx1] by (simp add: q_def)
  have in2: "v \<in> set2 \<longleftrightarrow> seqSetIdx p ! v = idx2" if "v < ?n" for v
    using mem [OF that] members [OF i12(2), of v] by (auto simp: set2_def)
  have in1: "v \<in> set1 \<longleftrightarrow> seqSetIdx p ! v = idx1" if "v < ?n" for v
    using mem [OF that] members [OF i12(1), of v] by (auto simp: set1_def)
  have new_set: "seqSet q ! k = (if k = idx2 then {} else if k = idx1 then set1 \<union> set2
                                else seqSet p ! k)" if "k < ?n" for k
    using that i12 len by (simp add: q_def nth_list_update)
  have run: "merge p e = Inr q"
    using ne i12(2) len sub
    unfolding merge_def Let_def q_def set1_def set2_def idx1_def idx2_def by simp
  have lens: "length (seqSetIdx q) = ?n" "length (seqSet q) = ?n"
    using len by (simp_all add: q_def)
  have okq: "Partition_ok q"
    unfolding Partition_ok_def lens
  proof (intro conjI allI impI ballI)
    fix v assume v: "v < ?n"
    show "seqSetIdx q ! v < ?n" using new_idx [OF v] i12(1) idx [OF v] by simp
    show "v \<in> seqSet q ! (seqSetIdx q ! v)"
    proof (cases "v \<in> set2")
      case True
      then show ?thesis using new_idx [OF v] new_set [OF i12(1)] i12(3) by simp
    next
      case False
      then have k: "seqSetIdx p ! v \<noteq> idx2" using in2 [OF v] by simp
      show ?thesis
        using False new_idx [OF v] new_set [OF idx [OF v]] k mem [OF v] in1 [OF v] by auto
    qed
  next
    fix k assume k: "k < ?n"
    show "finite (seqSet q ! k)"
      using new_set [OF k] fin [OF k] fin [OF i12(1)] fin2 by (simp add: set1_def)
  next
    fix k v assume k: "k < ?n" and v: "v \<in> seqSet q ! k"
    have k2: "k \<noteq> idx2" using v new_set [OF k] by auto
    have vn: "v < ?n"
      using v new_set [OF k] k2 members [OF k, of v] members [OF i12(1), of v] sub
      by (auto simp: set1_def split: if_splits)
    show "v < ?n" by (rule vn)
    show "seqSetIdx q ! v = k"
    proof (cases "k = idx1")
      case True
      then have "v \<in> set1 \<union> set2" using v new_set [OF k] i12(3) by simp
      then show ?thesis using new_idx [OF vn] in1 [OF vn] True by auto
    next
      case False
      then have "v \<in> seqSet p ! k" using v new_set [OF k] k2 by simp
      then have "seqSetIdx p ! v = k" using members [OF k] by simp
      then show ?thesis using new_idx [OF vn] in2 [OF vn] k2 by simp
    qed
  qed simp
  have both: "seqSetIdx q ! row1 e = idx1" "seqSetIdx q ! row2 e = idx1"
    using new_idx [OF rows(1)] new_idx [OF rows(2)] in2 [OF rows(1)] in2 [OF rows(2)] diff
    by (auto simp: idx1_def idx2_def split: if_splits)
  have "inSameSet q e = Inr True"
    using rows both by (simp add: inSameSet_def lens)
  then show ?thesis using run okq by blast
qed

lemma merge_ok:
  assumes "Partition_ok p" and "merge p e = Inr q"
  shows "Partition_ok q \<and> inSameSet q e = Inr True"
proof (cases "inSameSet p e")
  case (Inl err)
  then show ?thesis using assms(2) by (simp add: merge_def)
next
  case (Inr same)
  show ?thesis
  proof (cases same)
    case True
    then show ?thesis using Inr assms by (simp add: merge_def)
  next
    case False
    then show ?thesis using merge_different [OF assms(1), of e] Inr assms(2) by auto
  qed
qed

lemma merge_all_ok:
  assumes "Partition_ok p" and "merge_all p es = Inr q"
  shows "Partition_ok q"
  using assms
proof (induction es arbitrary: p)
  case Nil
  then show ?case by simp
next
  case (Cons e es)
  then obtain p1 where p1: "merge p e = Inr p1" "merge_all p1 es = Inr q"
    by (auto split: sum.splits)
  show ?case using Cons.IH [OF _ p1(2)] merge_ok [OF Cons.prems(1) p1(1)] by simp
qed

text \<open>
  C10. When the two ends of an edge are already in the same set, \<open>merge\<close> returns the
  partition it was given: \<open>seqSetIdx\<close>, every member set and \<open>nSets\<close> are unchanged. And
  on every partition that the constructor and a run of merges have built, whatever the
  edge, a call of \<open>merge\<close> that returns leaves the two ends of the edge in the same set,
  so that a second call with the same edge returns the partition of the first: \<open>merge\<close>
  is idempotent.
\<close>

theorem merge_idempotent:
  shows "(inSameSet p e = Inr True \<longrightarrow> merge p e = Inr p)
       \<and> (merge_all (Partition_new n) es = Inr p \<longrightarrow>
            (\<forall>q. merge p e = Inr q \<longrightarrow> inSameSet q e = Inr True \<and> merge q e = Inr q)
            \<and> (case merge p e of Inl err \<Rightarrow> Inl err | Inr q \<Rightarrow> merge q e) = merge p e)"
proof -
  have a: "merge p e = Inr p" if "inSameSet p e = Inr True"
    using that by (simp add: merge_def)
  have b: "inSameSet q e = Inr True \<and> merge q e = Inr q"
    if "merge_all (Partition_new n) es = Inr p" and "merge p e = Inr q" for q
  proof -
    have "Partition_ok p" using merge_all_ok [OF Partition_new_ok that(1)] .
    then have "inSameSet q e = Inr True" using merge_ok [OF _ that(2)] by simp
    then show ?thesis by (simp add: merge_def)
  qed
  have c: "(case merge p e of Inl err \<Rightarrow> Inl err | Inr q \<Rightarrow> merge q e) = merge p e"
    if "merge_all (Partition_new n) es = Inr p"
    using b [OF that] by (cases "merge p e") simp_all
  show ?thesis using a b c by blast
qed

theorem merge_idempotent_witness:
  "merge_all (Partition_new 3) [edge 1 2 5] = Inr \<lparr>seqSetIdx = [0, 1, 1], seqSet = [{0}, {1, 2}, {}], nSets = 2\<rparr>
   \<and> merge \<lparr>seqSetIdx = [0, 1, 1], seqSet = [{0}, {1, 2}, {}], nSets = 2\<rparr> (edge 0 2 7)
       = Inr \<lparr>seqSetIdx = [0, 0, 0], seqSet = [{0, 1, 2}, {}, {}], nSets = 1\<rparr>
   \<and> inSameSet \<lparr>seqSetIdx = [0, 0, 0], seqSet = [{0, 1, 2}, {}, {}], nSets = 1\<rparr> (edge 0 2 7)
       = Inr True
   \<and> merge \<lparr>seqSetIdx = [0, 0, 0], seqSet = [{0, 1, 2}, {}, {}], nSets = 1\<rparr> (edge 0 2 7)
       = Inr \<lparr>seqSetIdx = [0, 0, 0], seqSet = [{0, 1, 2}, {}, {}], nSets = 1\<rparr>"
proof -
  let ?p = "\<lparr>seqSetIdx = [0, 1, 1], seqSet = [{0}, {1, 2}, {}], nSets = 2\<rparr>"
  let ?q = "\<lparr>seqSetIdx = [0, 0, 0], seqSet = [{0, 1, 2}, {}, {}], nSets = 1\<rparr>"
  have n: "Partition_new 3 = \<lparr>seqSetIdx = [0, 1, 2], seqSet = [{0}, {1}, {2}], nSets = 3\<rparr>"
    by (simp add: Partition_new_eq upt_rec numeral_3_eq_3 numeral_2_eq_2)
  have "merge \<lparr>seqSetIdx = [0, 1, 2], seqSet = [{0}, {1}, {2}], nSets = 3\<rparr> (edge 1 2 5)
        = Inr ?p"
    by (simp add: merge_def inSameSet_def edge_def relabel_def dec_size_t_def Let_def
        insert_commute)
  then have r: "merge_all (Partition_new 3) [edge 1 2 5] = Inr ?p"
    unfolding n by simp
  have m: "merge ?p (edge 0 2 7) = Inr ?q"
    by (simp add: merge_def inSameSet_def edge_def relabel_def dec_size_t_def Let_def
        insert_commute)
  have "\<forall>q. merge ?p (edge 0 2 7) = Inr q \<longrightarrow>
          inSameSet q (edge 0 2 7) = Inr True \<and> merge q (edge 0 2 7) = Inr q"
    using merge_idempotent [of ?p "edge 0 2 7" 3 "[edge 1 2 5]"] r by blast
  then have "inSameSet ?q (edge 0 2 7) = Inr True \<and> merge ?q (edge 0 2 7) = Inr ?q"
    using m by blast
  then show ?thesis using r m by blast
qed

section \<open>sumprod.cpp: the eigen-decomposed substitution model\<close>

text \<open>
  Numbers. A \<^verbatim>\<open>double\<close> is read as the real number it stands for and a
  \<^verbatim>\<open>gsl_complex\<close> as a complex number, so that \<^verbatim>\<open>gsl_complex_add\<close>,
  \<^verbatim>\<open>gsl_complex_sub\<close>, \<^verbatim>\<open>gsl_complex_mul\<close>, \<^verbatim>\<open>gsl_complex_div\<close>,
  \<^verbatim>\<open>gsl_complex_mul_real\<close> and \<^verbatim>\<open>gsl_complex_exp\<close> are the operations of
  the field and its exponential: rounding is left out. A loop that adds the terms
  \<open>f 0, f 1, ...\<close> to an accumulator starting at zero is the sum of the list of terms.
\<close>

subsection \<open>The comparison of the GNU Scientific Library\<close>

text \<open>
  \<^verbatim>\<open>frexp\<close> writes a non-zero \<open>x\<close> as \<open>m * 2 ^ e\<close> with \<open>1/2 \<le> \<bar>m\<bar> < 1\<close> and gives
  the exponent \<open>e\<close>; it gives 0 for 0.
\<close>

definition frexp_exponent :: "real \<Rightarrow> int" where
  "frexp_exponent x = (if x = 0 then 0 else \<lfloor>log 2 \<bar>x\<bar>\<rfloor> + 1)"

text \<open>
  \<^verbatim>\<open>gsl_fcmp (x1, x2, epsilon)\<close>: the neighbourhood is \<open>epsilon\<close> scaled by the power
  of two of the argument larger in absolute value (\<^verbatim>\<open>ldexp (epsilon, exponent)\<close>).
\<close>

definition gsl_fcmp :: "real \<Rightarrow> real \<Rightarrow> real \<Rightarrow> int" where
  "gsl_fcmp x1 x2 epsilon =
     (let mx = (if \<bar>x1\<bar> > \<bar>x2\<bar> then x1 else x2);
          exponent = frexp_exponent mx;
          delta = epsilon * 2 powr (of_int exponent);
          difference = x1 - x2
      in if difference > delta then 1
         else if difference < - delta then - 1
         else 0)"

definition SUMPROD_EPSILON :: real where
  "SUMPROD_EPSILON = 1 / 10 ^ 6"

definition SUMPROD_NEAR_EQ :: "real \<Rightarrow> real \<Rightarrow> bool" where
  "SUMPROD_NEAR_EQ X Y = (gsl_fcmp X Y SUMPROD_EPSILON = 0)"

definition SUMPROD_NEAR_EQ_COMPLEX :: "complex \<Rightarrow> complex \<Rightarrow> bool" where
  "SUMPROD_NEAR_EQ_COMPLEX X Y = (SUMPROD_NEAR_EQ (Re X) (Re Y) \<and> SUMPROD_NEAR_EQ (Im X) (Im Y))"

definition SUMPROD_NEAR_REAL :: "complex \<Rightarrow> bool" where
  "SUMPROD_NEAR_REAL X = SUMPROD_NEAR_EQ (Im X) 0"

subsection \<open>The model and its eigensystem\<close>

text \<open>
  Modelled from the spec: the class \<^verbatim>\<open>RateModel\<close> of model.h, which is not among
  the sources. Section 6 of the specification gives what the code reads of it: the size
  of the alphabet, the rate matrix, the insertion distribution and \<^verbatim>\<open>tokenize\<close>.
\<close>

record RateModel =
  alphabetSize :: nat
  subRate :: "real list list"
  insProb :: "real list"
  tokenize :: "char \<Rightarrow> int"

text \<open>
  The fields of \<^verbatim>\<open>EigenModel\<close> that the functions below read and write. The
  constructor fills \<open>ev\<close>, \<open>evec\<close> and \<open>evecInv\<close> by the eigensolver and the LU inversion
  of the library; here they are given.
\<close>

record EigenModel =
  model :: RateModel
  evec :: "complex list list"
  evecInv :: "complex list list"
  ev :: "complex list"
  ev_t :: "complex list"
  exp_ev_t :: "complex list"

definition compute_exp_ev_t :: "EigenModel \<Rightarrow> real \<Rightarrow> EigenModel" where
  "compute_exp_ev_t e t =
     e\<lparr>ev_t := map (\<lambda>i. ev e ! i * of_real t) [0..<alphabetSize (model e)],
       exp_ev_t := map (\<lambda>i. exp (ev e ! i * of_real t)) [0..<alphabetSize (model e)]\<rparr>"

text \<open>
  \<^verbatim>\<open>getSubProbInner\<close>. The matrices have \<open>alphabetSize\<close> rows and columns, and the
  library checks the indices given to \<^verbatim>\<open>gsl_matrix_complex_get\<close>.
\<close>

definition getSubProbInner :: "EigenModel \<Rightarrow> real \<Rightarrow> nat \<Rightarrow> nat \<Rightarrow> error + real" where
  "getSubProbInner e t i j =
     (if \<not> (i < alphabetSize (model e) \<and> j < alphabetSize (model e)) then Inl OutOfRange
      else
        (let p = (\<Sum>k\<leftarrow>[0..<alphabetSize (model e)].
                    evec e ! i ! k * evecInv e ! k ! j * exp_ev_t e ! k)
         in if \<not> SUMPROD_NEAR_REAL p then Inl ImaginaryProbability
            else Inr (min 1 (max 0 (Re p)))))"

definition getSubProb :: "EigenModel \<Rightarrow> real \<Rightarrow> nat \<Rightarrow> nat \<Rightarrow> error + real" where
  "getSubProb e t i j = getSubProbInner (compute_exp_ev_t e t) t i j"

definition eigenSubCount :: "EigenModel \<Rightarrow> real \<Rightarrow> complex list list" where
  "eigenSubCount e t =
     (let e' = compute_exp_ev_t e t
      in map (\<lambda>i. map (\<lambda>j.
            (let ev_eq = (i = j \<or> SUMPROD_NEAR_EQ_COMPLEX (ev e' ! i) (ev e' ! j))
             in if ev_eq then exp_ev_t e' ! i * of_real t
                else (exp_ev_t e' ! i - exp_ev_t e' ! j) / (ev e' ! i - ev e' ! j)))
            [0..<alphabetSize (model e')])
          [0..<alphabetSize (model e')])"

text \<open>
  The sum that the specification writes for \<open>sub_prob\<close>:
  \<open>\<Sum>k. V[i,k] * V\<^sup>-\<^sup>1[k,j] * exp (\<lambda>\<^sub>k t)\<close>.
\<close>

definition spectral_sum :: "EigenModel \<Rightarrow> real \<Rightarrow> nat \<Rightarrow> nat \<Rightarrow> complex" where
  "spectral_sum e t i j =
     (\<Sum>k<alphabetSize (model e). evec e ! i ! k * evecInv e ! k ! j * exp (ev e ! k * of_real t))"

text \<open>
  The two-letter model of the specification's first scenario: rates \<open>[[-1, 1], [1, -1]]\<close>,
  eigenvalues 0 and -2, eigenvectors \<open>(1, 1)\<close> and \<open>(1, -1)\<close>.
\<close>

definition jc2_model :: RateModel where
  "jc2_model = \<lparr>alphabetSize = 2, subRate = [[- 1, 1], [1, - 1]], insProb = [1 / 2, 1 / 2],
                 tokenize = (\<lambda>c. if c = CHR ''A'' then 0 else if c = CHR ''B'' then 1 else - 1)\<rparr>"

definition jc2 :: EigenModel where
  "jc2 = \<lparr>model = jc2_model,
          evec = [[1, 1], [1, - 1]],
          evecInv = [[1 / 2, 1 / 2], [1 / 2, - 1 / 2]],
          ev = [0, - 2],
          ev_t = [0, 0],
          exp_ev_t = [0, 0]\<rparr>"

subsection \<open>Properties of the comparison\<close>

lemma frexp_bounds:
  assumes "x \<noteq> 0"
  shows "2 powr (of_int (frexp_exponent x)) \<le> 2 * \<bar>x\<bar>"
    and "\<bar>x\<bar> < 2 powr (of_int (frexp_exponent x))"
proof -
  have pos: "0 < \<bar>x\<bar>" using assms by simp
  have "(2::real) powr (of_int (frexp_exponent x)) = 2 * 2 powr (of_int \<lfloor>log 2 \<bar>x\<bar>\<rfloor>)"
    using assms by (simp add: frexp_exponent_def powr_add)
  also have "(2::real) powr (of_int \<lfloor>log 2 \<bar>x\<bar>\<rfloor>) \<le> 2 powr (log 2 \<bar>x\<bar>)"
    by (rule powr_mono) simp_all
  also have "2 powr (log 2 \<bar>x\<bar>) = \<bar>x\<bar>" using pos by simp
  finally show "2 powr (of_int (frexp_exponent x)) \<le> 2 * \<bar>x\<bar>" by simp
  have "log 2 \<bar>x\<bar> < of_int (frexp_exponent x)"
    using assms by (simp add: frexp_exponent_def)
  then have "(2::real) powr (log 2 \<bar>x\<bar>) < 2 powr (of_int (frexp_exponent x))"
    by (rule powr_less_mono) simp
  then show "\<bar>x\<bar> < 2 powr (of_int (frexp_exponent x))" using pos by simp
qed

text \<open>Against zero the scaled neighbourhood shrinks with the number: only zero is near zero.\<close>

lemma gsl_fcmp_zero:
  assumes "0 < eps" "2 * eps < 1"
  shows "gsl_fcmp x 0 eps = 0 \<longleftrightarrow> x = 0"
proof (cases "x = 0")
  case True
  then show ?thesis using assms by (simp add: gsl_fcmp_def frexp_exponent_def)
next
  case False
  have "eps * 2 powr (of_int (frexp_exponent x)) \<le> eps * (2 * \<bar>x\<bar>)"
    using frexp_bounds(1) [OF False] assms by (simp add: mult_left_mono)
  also have "\<dots> = (2 * eps) * \<bar>x\<bar>" by simp
  also have "\<dots> < \<bar>x\<bar>" using assms False by simp
  finally have d: "eps * 2 powr (of_int (frexp_exponent x)) < \<bar>x\<bar>" .
  show ?thesis using False d
    by (auto simp: gsl_fcmp_def Let_def abs_if split: if_splits)
qed

lemma gsl_fcmp_refl: "0 \<le> eps \<Longrightarrow> gsl_fcmp x x eps = 0"
proof -
  assume "0 \<le> eps"
  then have "0 \<le> eps * 2 powr (of_int (frexp_exponent x))" by simp
  then show ?thesis by (simp add: gsl_fcmp_def Let_def)
qed

lemma SUMPROD_NEAR_REAL_iff: "SUMPROD_NEAR_REAL p \<longleftrightarrow> Im p = 0"
  by (simp add: SUMPROD_NEAR_REAL_def SUMPROD_NEAR_EQ_def SUMPROD_EPSILON_def gsl_fcmp_zero)

lemma SUMPROD_NEAR_EQ_COMPLEX_refl: "SUMPROD_NEAR_EQ_COMPLEX x x"
  by (simp add: SUMPROD_NEAR_EQ_COMPLEX_def SUMPROD_NEAR_EQ_def SUMPROD_EPSILON_def gsl_fcmp_refl)

subsection \<open>The integrated eigen-counts and the transition probability\<close>

lemma integrand_antiderivative:
  fixes a b :: complex
  assumes "a \<noteq> b"
  shows "((\<lambda>\<tau>::real. exp (a * of_real \<tau>) * exp (b * of_real (t - \<tau>)) / (a - b))
           has_vector_derivative (exp (a * of_real \<tau>) * exp (b * of_real (t - \<tau>)))) (at \<tau>)"
proof -
  let ?G = "\<lambda>z::complex. exp (a * z) * exp (b * (of_real t - z))"
  have "(?G has_field_derivative ((a - b) * ?G (of_real \<tau>))) (at (of_real \<tau>))"
    by (auto intro!: derivative_eq_intros simp: algebra_simps)
  then have "((\<lambda>z. ?G z / (a - b)) has_field_derivative ((a - b) * ?G (of_real \<tau>) / (a - b)))
          (at (of_real \<tau>))"
    by (rule DERIV_cdivide)
  then have "((\<lambda>z. ?G z / (a - b)) has_field_derivative ?G (of_real \<tau>)) (at (of_real \<tau>))"
    using assms by simp
  then have "((\<lambda>x. ?G (of_real x) / (a - b)) has_vector_derivative ?G (of_real \<tau>)) (at \<tau>)"
    by (rule has_vector_derivative_real_field)
  then show ?thesis by simp
qed

lemma integrand_degenerate:
  fixes a :: complex
  shows "((\<lambda>\<tau>::real. exp (a * of_real t) * of_real \<tau>)
           has_vector_derivative (exp (a * of_real \<tau>) * exp (a * of_real (t - \<tau>)))) (at \<tau>)"
proof -
  have e: "exp (a * of_real \<tau>) * exp (a * of_real (t - \<tau>)) = exp (a * of_real t)"
    by (simp add: exp_add [symmetric] algebra_simps)
  have "((\<lambda>z::complex. exp (a * of_real t) * z) has_field_derivative exp (a * of_real t))
          (at (of_real \<tau>))"
    by (auto intro!: derivative_eq_intros)
  then have "((\<lambda>x. exp (a * of_real t) * of_real x) has_vector_derivative exp (a * of_real t))
          (at \<tau>)"
    by (rule has_vector_derivative_real_field)
  then show ?thesis unfolding e .
qed

lemma eigenSubCount_nth:
  assumes "k < alphabetSize (model e)" and "l < alphabetSize (model e)"
  shows "eigenSubCount e t ! k ! l =
          (if k = l \<or> SUMPROD_NEAR_EQ_COMPLEX (ev e ! k) (ev e ! l)
           then exp (ev e ! k * of_real t) * of_real t
           else (exp (ev e ! k * of_real t) - exp (ev e ! l * of_real t)) / (ev e ! k - ev e ! l))"
  using assms by (simp add: eigenSubCount_def compute_exp_ev_t_def Let_def)

text \<open>
  C2. For every branch length \<open>t\<close> (so also for \<open>t \<ge> 0\<close>) and eigenvalue indices \<open>k\<close>, \<open>l\<close>
  below the size of the alphabet, \<open>eigenSubCount\<close> returns a square matrix of that size whose
  entry \<open>(k, l)\<close> is \<open>t * exp (\<lambda>\<^sub>k t)\<close> when \<open>k = l\<close> or the two eigenvalues compare as
  near-equal in their real and imaginary parts, and
  \<open>(exp (\<lambda>\<^sub>k t) - exp (\<lambda>\<^sub>l t)) / (\<lambda>\<^sub>k - \<lambda>\<^sub>l)\<close> otherwise. The entry is the integral from 0
  to \<open>t\<close> of \<open>exp (\<lambda>\<^sub>k \<tau>) * exp (\<lambda>\<^sub>l (t - \<tau>))\<close>, with \<open>\<lambda>\<^sub>l\<close> replaced by \<open>\<lambda>\<^sub>k\<close> in the degenerate
  case: the integral is stated through an antiderivative \<open>G\<close> of the integrand on the
  whole line, as \<open>G t - G 0\<close>.
\<close>

theorem eigenSubCount_entry:
  assumes "k < alphabetSize (model e)" and "l < alphabetSize (model e)"
  shows "length (eigenSubCount e t) = alphabetSize (model e)
       \<and> length (eigenSubCount e t ! k) = alphabetSize (model e)
       \<and> eigenSubCount e t ! k ! l =
          (if k = l \<or> SUMPROD_NEAR_EQ_COMPLEX (ev e ! k) (ev e ! l)
           then of_real t * exp (ev e ! k * of_real t)
           else (exp (ev e ! k * of_real t) - exp (ev e ! l * of_real t)) / (ev e ! k - ev e ! l))
       \<and> (\<exists>G. (\<forall>\<tau>. (G has_vector_derivative
                       exp (ev e ! k * of_real \<tau>) *
                       exp ((if k = l \<or> SUMPROD_NEAR_EQ_COMPLEX (ev e ! k) (ev e ! l)
                             then ev e ! k else ev e ! l) * of_real (t - \<tau>))) (at \<tau>))
              \<and> eigenSubCount e t ! k ! l = G t - G 0)"
proof (intro conjI)
  show "length (eigenSubCount e t) = alphabetSize (model e)"
    by (simp add: eigenSubCount_def compute_exp_ev_t_def Let_def)
  show "length (eigenSubCount e t ! k) = alphabetSize (model e)"
    using assms by (simp add: eigenSubCount_def compute_exp_ev_t_def Let_def)
  show "eigenSubCount e t ! k ! l =
          (if k = l \<or> SUMPROD_NEAR_EQ_COMPLEX (ev e ! k) (ev e ! l)
           then of_real t * exp (ev e ! k * of_real t)
           else (exp (ev e ! k * of_real t) - exp (ev e ! l * of_real t)) / (ev e ! k - ev e ! l))"
    using assms by (simp add: eigenSubCount_nth mult.commute)
  show "\<exists>G. (\<forall>\<tau>. (G has_vector_derivative
                       exp (ev e ! k * of_real \<tau>) *
                       exp ((if k = l \<or> SUMPROD_NEAR_EQ_COMPLEX (ev e ! k) (ev e ! l)
                             then ev e ! k else ev e ! l) * of_real (t - \<tau>))) (at \<tau>))
              \<and> eigenSubCount e t ! k ! l = G t - G 0"
  proof (cases "k = l \<or> SUMPROD_NEAR_EQ_COMPLEX (ev e ! k) (ev e ! l)")
    case True
    let ?G = "\<lambda>\<tau>::real. exp (ev e ! k * of_real t) * of_real \<tau>"
    have "\<forall>\<tau>. (?G has_vector_derivative
                exp (ev e ! k * of_real \<tau>) * exp (ev e ! k * of_real (t - \<tau>))) (at \<tau>)"
      using integrand_degenerate by blast
    moreover have "eigenSubCount e t ! k ! l = ?G t - ?G 0"
      using assms True by (simp add: eigenSubCount_nth)
    ultimately show ?thesis using True by (intro exI [of _ ?G]) simp
  next
    case False
    then have ne: "ev e ! k \<noteq> ev e ! l"
      using SUMPROD_NEAR_EQ_COMPLEX_refl by auto
    let ?G = "\<lambda>\<tau>::real. exp (ev e ! k * of_real \<tau>) * exp (ev e ! l * of_real (t - \<tau>))
                / (ev e ! k - ev e ! l)"
    have "\<forall>\<tau>. (?G has_vector_derivative
                exp (ev e ! k * of_real \<tau>) * exp (ev e ! l * of_real (t - \<tau>))) (at \<tau>)"
      using integrand_antiderivative [OF ne] by blast
    moreover have "eigenSubCount e t ! k ! l = ?G t - ?G 0"
      using assms False by (simp add: eigenSubCount_nth diff_divide_distrib)
    ultimately show ?thesis using False by (intro exI [of _ ?G]) simp
  qed
qed

lemma jc2_not_near: "\<not> SUMPROD_NEAR_EQ_COMPLEX 0 (- 2)"
proof -
  have "frexp_exponent (- 2) = 2" by (simp add: frexp_exponent_def)
  then show ?thesis
    by (simp add: SUMPROD_NEAR_EQ_COMPLEX_def SUMPROD_NEAR_EQ_def gsl_fcmp_def SUMPROD_EPSILON_def
        Let_def)
qed

theorem eigenSubCount_entry_witness:
  "0 < alphabetSize (model jc2) \<and> 1 < alphabetSize (model jc2)
   \<and> eigenSubCount jc2 1 ! 0 ! 1 = (1 - exp (- 2)) / 2"
proof -
  have a: "0 < alphabetSize (model jc2)" and b: "1 < alphabetSize (model jc2)"
    by (simp_all add: jc2_def jc2_model_def)
  have v: "ev jc2 ! 0 = 0" "ev jc2 ! 1 = - 2" by (simp_all add: jc2_def)
  have "eigenSubCount jc2 1 ! 0 ! 1 =
          (if 0 = (1::nat) \<or> SUMPROD_NEAR_EQ_COMPLEX (ev jc2 ! 0) (ev jc2 ! 1)
           then of_real 1 * exp (ev jc2 ! 0 * of_real 1)
           else (exp (ev jc2 ! 0 * of_real 1) - exp (ev jc2 ! 1 * of_real 1))
                / (ev jc2 ! 0 - ev jc2 ! 1))"
    using eigenSubCount_entry [OF a b, of 1] by blast
  then have "eigenSubCount jc2 1 ! 0 ! 1 = (1 - exp (- 2)) / 2"
    unfolding v using jc2_not_near by simp
  with a b show ?thesis by blast
qed


lemma getSubProb_eq:
  assumes "i < alphabetSize (model e)" and "j < alphabetSize (model e)"
  shows "getSubProb e t i j =
          (if Im (spectral_sum e t i j) \<noteq> 0 then Inl ImaginaryProbability
           else Inr (min 1 (max 0 (Re (spectral_sum e t i j)))))"
proof -
  let ?A = "alphabetSize (model e)"
  let ?e = "compute_exp_ev_t e t"
  have "(\<Sum>k\<leftarrow>[0..<?A]. evec ?e ! i ! k * evecInv ?e ! k ! j * exp_ev_t ?e ! k)
        = (\<Sum>k\<leftarrow>[0..<?A]. evec e ! i ! k * evecInv e ! k ! j * exp (ev e ! k * of_real t))"
    by (rule arg_cong [where f = sum_list], rule map_cong) (simp_all add: compute_exp_ev_t_def)
  also have "\<dots> = spectral_sum e t i j"
    by (simp add: spectral_sum_def interv_sum_list_conv_sum_set_nat atLeast0LessThan)
  finally have s: "(\<Sum>k\<leftarrow>[0..<?A]. evec ?e ! i ! k * evecInv ?e ! k ! j * exp_ev_t ?e ! k)
        = spectral_sum e t i j" .
  have m: "alphabetSize (model ?e) = ?A" by (simp add: compute_exp_ev_t_def)
  show ?thesis
    using assms unfolding getSubProb_def getSubProbInner_def m s
    by (simp add: SUMPROD_NEAR_REAL_iff)
qed

text \<open>
  C3, as far as it holds. For indices below the size of the alphabet, \<open>getSubProb\<close> fails
  when the imaginary part of the spectral sum is further than the tolerance from zero.
  There is no failure for the real part: when the imaginary part passes the test of the
  code, a real part at or below 0, however far below, gives 0, a real part between 0 and
  1 is returned as it is, and a real part above 1 and at most \<open>1 + \<epsilon>\<close> gives 1. So every
  value returned lies between 0 and 1.
\<close>

theorem getSubProb_clamps:
  assumes "i < alphabetSize (model e)" and "j < alphabetSize (model e)"
  shows "(SUMPROD_EPSILON < \<bar>Im (spectral_sum e t i j)\<bar> \<longrightarrow>
            getSubProb e t i j = Inl ImaginaryProbability)
       \<and> (SUMPROD_NEAR_REAL (spectral_sum e t i j) \<and> Re (spectral_sum e t i j) \<le> 0 \<longrightarrow>
            getSubProb e t i j = Inr 0)
       \<and> (SUMPROD_NEAR_REAL (spectral_sum e t i j)
            \<and> 0 \<le> Re (spectral_sum e t i j) \<and> Re (spectral_sum e t i j) \<le> 1 \<longrightarrow>
            getSubProb e t i j = Inr (Re (spectral_sum e t i j)))
       \<and> (SUMPROD_NEAR_REAL (spectral_sum e t i j)
            \<and> 1 < Re (spectral_sum e t i j)
            \<and> Re (spectral_sum e t i j) \<le> 1 + SUMPROD_EPSILON \<longrightarrow>
            getSubProb e t i j = Inr 1)
       \<and> (\<forall>x. getSubProb e t i j = Inr x \<longrightarrow> 0 \<le> x \<and> x \<le> 1)"
proof -
  have eps: "0 \<le> SUMPROD_EPSILON" by (simp add: SUMPROD_EPSILON_def)
  show ?thesis
    unfolding getSubProb_eq [OF assms] SUMPROD_NEAR_REAL_iff using eps
    by (auto split: if_splits)
qed

lemma jc2_size: "alphabetSize (model jc2) = 2"
  by (simp add: jc2_def jc2_model_def)

lemma jc2_spectral_sum_01:
  "spectral_sum jc2 t 0 1 = 1 / 2 - exp (- 2 * of_real t) / 2"
  by (simp add: spectral_sum_def jc2_size lessThan_Suc numeral_2_eq_2) (simp add: jc2_def)

lemma jc2_spectral_sum_00:
  "spectral_sum jc2 t 0 0 = 1 / 2 + exp (- 2 * of_real t) / 2"
  by (simp add: spectral_sum_def jc2_size lessThan_Suc numeral_2_eq_2) (simp add: jc2_def)

theorem getSubProb_clamps_witness:
  "1 < alphabetSize (model jc2) \<and> SUMPROD_NEAR_REAL (spectral_sum jc2 0 0 1)
   \<and> Re (spectral_sum jc2 0 0 1) \<le> 0
   \<and> getSubProb jc2 0 0 1 = Inr 0"
proof -
  have a: "0 < alphabetSize (model jc2)" and b: "1 < alphabetSize (model jc2)"
    by (simp_all add: jc2_size)
  have p: "spectral_sum jc2 0 0 1 = 0" unfolding jc2_spectral_sum_01 by simp
  have n: "SUMPROD_NEAR_REAL (spectral_sum jc2 0 0 1)"
    unfolding p by (simp add: SUMPROD_NEAR_REAL_iff)
  have r: "Re (spectral_sum jc2 0 0 1) \<le> 0" unfolding p by simp
  have "SUMPROD_NEAR_REAL (spectral_sum jc2 0 0 1) \<and> Re (spectral_sum jc2 0 0 1) \<le> 0
        \<longrightarrow> getSubProb jc2 0 0 1 = Inr 0"
    using getSubProb_clamps [OF a b, of 0] by blast
  then show ?thesis using b n r by blast
qed

text \<open>
  C3 as stated fails: in the two-letter model at \<open>t = - ln 3 / 2\<close> the spectral sum for
  \<open>(0, 1)\<close> is \<open>- 1\<close>, real and far below minus the tolerance, and \<open>getSubProb\<close> returns 0
  instead of failing.
\<close>

theorem getSubProb_negative_counterexample:
  "Im (spectral_sum jc2 (- ln 3 / 2) 0 1) = 0
   \<and> Re (spectral_sum jc2 (- ln 3 / 2) 0 1) < - SUMPROD_EPSILON
   \<and> getSubProb jc2 (- ln 3 / 2) 0 1 = Inr 0"
proof -
  have "exp (- 2 * complex_of_real (- ln 3 / 2)) = exp (of_real (ln 3))"
    by (rule arg_cong [where f = exp]) simp
  also have "\<dots> = 3" by (simp add: exp_of_real)
  finally have e3: "exp (- 2 * complex_of_real (- ln 3 / 2)) = 3" .
  have p: "spectral_sum jc2 (- ln 3 / 2) 0 1 = - 1"
    unfolding jc2_spectral_sum_01 e3 by simp
  have a: "0 < alphabetSize (model jc2)" and b: "1 < alphabetSize (model jc2)"
    by (simp_all add: jc2_size)
  have "getSubProb jc2 (- ln 3 / 2) 0 1 = Inr 0"
    unfolding getSubProb_eq [OF a b] p by simp
  then show ?thesis unfolding p by (simp add: SUMPROD_EPSILON_def)
qed

section \<open>sumprod.cpp: the sum-product algorithm on a column\<close>

subsection \<open>Log-probabilities\<close>

text \<open>
  A \<^verbatim>\<open>LogProb\<close> is a \<^verbatim>\<open>double\<close> that may be minus infinity (the code writes
  \<^verbatim>\<open>-numeric_limits<double>::infinity()\<close>). Sums and differences of such numbers can
  also give plus infinity and the value that is not a number, so all four kinds are kept,
  with the arithmetic of IEEE 754 on them and exact arithmetic on the finite ones.
\<close>

datatype dbl = Fin real | PInf | MInf | NaN

instantiation dbl :: comm_monoid_add
begin

definition zero_dbl :: dbl where
  "zero_dbl = Fin 0"

fun plus_dbl :: "dbl \<Rightarrow> dbl \<Rightarrow> dbl" where
  "plus_dbl NaN y = NaN"
| "plus_dbl x NaN = NaN"
| "plus_dbl PInf MInf = NaN"
| "plus_dbl MInf PInf = NaN"
| "plus_dbl PInf y = PInf"
| "plus_dbl x PInf = PInf"
| "plus_dbl MInf y = MInf"
| "plus_dbl x MInf = MInf"
| "plus_dbl (Fin a) (Fin b) = Fin (a + b)"

instance
proof
  fix x y z :: dbl
  show "x + y = y + x"
    by (cases x; cases y; simp)
  show "(x + y) + z = x + (y + z)"
    by (cases x; cases y; cases z; simp)
  show "0 + x = x"
    unfolding zero_dbl_def by (cases x; simp)
qed

end

instantiation dbl :: "{uminus, minus}"
begin

fun uminus_dbl :: "dbl \<Rightarrow> dbl" where
  "uminus_dbl (Fin a) = Fin (- a)"
| "uminus_dbl PInf = MInf"
| "uminus_dbl MInf = PInf"
| "uminus_dbl NaN = NaN"

definition minus_dbl :: "dbl \<Rightarrow> dbl \<Rightarrow> dbl" where
  "minus_dbl x y = x + (- y)"

instance ..

end

text \<open>\<^verbatim>\<open>exp\<close> of the C library on such a number.\<close>

fun dexp :: "dbl \<Rightarrow> dbl" where
  "dexp (Fin a) = Fin (exp a)"
| "dexp MInf = Fin 0"
| "dexp PInf = PInf"
| "dexp NaN = NaN"

text \<open>
  Modelled from the spec: \<^verbatim>\<open>log_accum_exp\<close> of util.h, which is not among the sources.
  Section 4.2 of the specification: \<open>log_accum_exp (a, b) = max (a, b) + log1p (exp (- \<bar>a - b\<bar>))\<close>,
  and an input of minus infinity leaves the other one. Plus infinity and the value that is
  not a number follow the formula in IEEE arithmetic.
\<close>

fun log_accum_exp :: "dbl \<Rightarrow> dbl \<Rightarrow> dbl" where
  "log_accum_exp NaN y = NaN"
| "log_accum_exp x NaN = NaN"
| "log_accum_exp MInf y = y"
| "log_accum_exp x MInf = x"
| "log_accum_exp PInf PInf = NaN"
| "log_accum_exp PInf y = PInf"
| "log_accum_exp x PInf = PInf"
| "log_accum_exp (Fin a) (Fin b) = Fin (max a b + ln (1 + exp (- \<bar>a - b\<bar>)))"

text \<open>
  Modelled from the spec: \<^verbatim>\<open>logInnerProduct\<close> of util.h, which is not among the
  sources. Section 4.2: the column likelihood is \<open>logsumexp\<^sub>i (logF[r][i] + log\<pi>[i])\<close>,
  accumulated from minus infinity over the two vectors in step.
\<close>

definition logInnerProduct :: "dbl list \<Rightarrow> dbl list \<Rightarrow> dbl" where
  "logInnerProduct v w = fold (\<lambda>(a, b) acc. log_accum_exp acc (a + b)) (zip v w) MInf"

text \<open>
  Modelled from the spec: \<^verbatim>\<open>log_gsl_vector\<close> of util.h, which is not among the
  sources: the logarithm of every entry, in the arithmetic of the C library.
\<close>

definition log_gsl_vector :: "real list \<Rightarrow> dbl list" where
  "log_gsl_vector v = map (\<lambda>p. if 0 < p then Fin (ln p) else if p = 0 then MInf else NaN) v"

subsection \<open>The tree and the alignment\<close>

text \<open>
  Modelled from the spec: the class \<^verbatim>\<open>Tree\<close> of tree.h, which is not among the
  sources. Section 3 of the specification: nodes are numbered from 0, every node has a
  parent (a negative number for the root), its children in order and the length of the
  branch to its parent; section 6 names the accessors.
\<close>

record TreeNode =
  parent :: int
  child :: "nat list"
  d :: real

type_synonym Tree = "TreeNode list"

definition nodes :: "Tree \<Rightarrow> nat" where
  "nodes t = length t"

definition parentNode :: "Tree \<Rightarrow> nat \<Rightarrow> int" where
  "parentNode t n = parent (t ! n)"

definition nChildren :: "Tree \<Rightarrow> nat \<Rightarrow> nat" where
  "nChildren t n = length (child (t ! n))"

definition getChild :: "Tree \<Rightarrow> nat \<Rightarrow> nat \<Rightarrow> nat" where
  "getChild t n k = child (t ! n) ! k"

definition isLeaf :: "Tree \<Rightarrow> nat \<Rightarrow> bool" where
  "isLeaf t n = (child (t ! n) = [])"

definition branchLength :: "Tree \<Rightarrow> nat \<Rightarrow> real" where
  "branchLength t n = d (t ! n)"

text \<open>
  The members of \<^verbatim>\<open>AlignColSumProduct\<close>. The class keeps a reference to the rate
  model next to the eigensystem built from it; here the model is read through \<open>eigen\<close>.
  \<open>isGapChar\<close> and \<open>wildcardChar\<close> stand for \<^verbatim>\<open>Alignment::isGap\<close> and
  \<^verbatim>\<open>Alignment::wildcardChar\<close>, which are declared outside the sources: they are
  parameters. A row of \<open>gapped\<close> is the character buffer of a \<^verbatim>\<open>FastSeq\<close>.
\<close>

record AlignColSumProduct =
  eigen :: EigenModel
  tree :: Tree
  gapped :: "string list"
  isGapChar :: "char \<Rightarrow> bool"
  wildcardChar :: char
  logInsProb :: "dbl list"
  branchLogSubProb :: "dbl list list list"
  branchEigenSubCount :: "complex list list list"
  col :: nat
  ungappedRows :: "nat list"
  colLogLike :: dbl
  logE :: "dbl list list"
  logF :: "dbl list list"
  logG :: "dbl list list"

definition alphSize :: "AlignColSumProduct \<Rightarrow> nat" where
  "alphSize s = alphabetSize (model (eigen s))"

text \<open>
  \<^verbatim>\<open>gapped[r].seq[col]\<close>: a string gives the character zero at its length, and
  nothing beyond it.
\<close>

definition cell :: "AlignColSumProduct \<Rightarrow> nat \<Rightarrow> error + char" where
  "cell s r =
     (if \<not> r < length (gapped s) then Inl OutOfRange
      else if col s < length (gapped s ! r) then Inr (gapped s ! r ! col s)
      else if col s = length (gapped s ! r) then Inr (CHR 0x00)
      else Inl OutOfRange)"

text \<open>
  Modelled from the spec: the inline members \<^verbatim>\<open>isGap\<close>, \<^verbatim>\<open>isWild\<close>,
  \<^verbatim>\<open>root\<close> and \<^verbatim>\<open>columnEmpty\<close> of sumprod.h, which is not among the sources. A row
  is gapped when its character in the column is a gap and wild when it is the wildcard;
  the root of the column is the last of the ungapped rows (\<^verbatim>\<open>fillDown\<close> starts from
  it), the one whose parent is absent or gapped.
\<close>

definition isGap :: "AlignColSumProduct \<Rightarrow> nat \<Rightarrow> error + bool" where
  "isGap s r = (case cell s r of Inl err \<Rightarrow> Inl err | Inr c \<Rightarrow> Inr (isGapChar s c))"

definition isWild :: "AlignColSumProduct \<Rightarrow> nat \<Rightarrow> error + bool" where
  "isWild s r = (case cell s r of Inl err \<Rightarrow> Inl err | Inr c \<Rightarrow> Inr (c = wildcardChar s))"

definition root :: "AlignColSumProduct \<Rightarrow> nat" where
  "root s = last (ungappedRows s)"


text \<open>A loop whose body can fail stops at the first failure.\<close>

fun foldE :: "('a \<Rightarrow> 's \<Rightarrow> error + 's) \<Rightarrow> 'a list \<Rightarrow> 's \<Rightarrow> error + 's" where
  "foldE f [] s = Inr s"
| "foldE f (x # xs) s = (case f x s of Inl err \<Rightarrow> Inl err | Inr s' \<Rightarrow> foldE f xs s')"

subsection \<open>initColumn\<close>

text \<open>
  The body of the loop of \<^verbatim>\<open>initColumn\<close> for row \<open>r\<close>, on the three local vectors
  \<^verbatim>\<open>ungappedRows\<close>, \<^verbatim>\<open>ungappedKids\<close> and \<^verbatim>\<open>roots\<close>.
\<close>

definition initColumn_step ::
  "AlignColSumProduct \<Rightarrow> nat \<Rightarrow> nat list \<times> int list \<times> nat list
     \<Rightarrow> error + nat list \<times> int list \<times> nat list" where
  "initColumn_step s r st =
     (case st of (rows, ungappedKids, roots) \<Rightarrow>
        (case isGap s r of
           Inl err \<Rightarrow> Inl err
         | Inr True \<Rightarrow> Inr (rows, ungappedKids, roots)
         | Inr False \<Rightarrow>
            (case isWild s r of
               Inl err \<Rightarrow> Inl err
             | Inr w \<Rightarrow>
                if \<not> (w \<or> ungappedKids ! r = 0) then Inl NotWildcard
                else
                  (let rp = parentNode (tree s) r
                   in if rp < 0 then Inr (rows @ [r], ungappedKids, roots @ [r])
                      else
                        (case isGap s (nat rp) of
                           Inl err \<Rightarrow> Inl err
                         | Inr True \<Rightarrow> Inr (rows @ [r], ungappedKids, roots @ [r])
                         | Inr False \<Rightarrow>
                             if \<not> nat rp < length ungappedKids then Inl OutOfRange
                             else Inr (rows @ [r],
                                       ungappedKids[nat rp := ungappedKids ! nat rp + 1],
                                       roots))))))"

definition initColumn :: "AlignColSumProduct \<Rightarrow> error + AlignColSumProduct" where
  "initColumn s =
     (case foldE (initColumn_step s) [0..<nodes (tree s)]
             ([], replicate (nodes (tree s)) 0, []) of
        Inl err \<Rightarrow> Inl err
      | Inr (rows, ungappedKids, roots) \<Rightarrow>
          if length roots \<noteq> 1 then Inl MultipleRoots
          else Inr (s\<lparr>ungappedRows := rows\<rparr>))"

definition alignmentDone :: "AlignColSumProduct \<Rightarrow> error + bool" where
  "alignmentDone s =
     (case gapped s of [] \<Rightarrow> Inl OutOfRange | row # rest \<Rightarrow> Inr (col s \<ge> length row))"

definition nextColumn :: "AlignColSumProduct \<Rightarrow> error + AlignColSumProduct" where
  "nextColumn s =
     (let s1 = s\<lparr>col := col s + 1\<rparr>
      in case alignmentDone s1 of
           Inl err \<Rightarrow> Inl err
         | Inr True \<Rightarrow> Inr s1
         | Inr False \<Rightarrow> initColumn s1)"

subsection \<open>fillUp\<close>

text \<open>The row of \<open>logF\<close> that \<^verbatim>\<open>fillUp\<close> computes for the ungapped row \<open>r\<close>.\<close>

definition fillUp_logF :: "AlignColSumProduct \<Rightarrow> nat \<Rightarrow> error + dbl list" where
  "fillUp_logF s r =
     (case isWild s r of
        Inl err \<Rightarrow> Inl err
      | Inr True \<Rightarrow>
          Inr (map (\<lambda>i. \<Sum>nc\<leftarrow>[0..<nChildren (tree s) r]. logE s ! getChild (tree s) r nc ! i)
                 [0..<alphSize s])
      | Inr False \<Rightarrow>
          (case cell s r of
             Inl err \<Rightarrow> Inl err
           | Inr c \<Rightarrow>
               (let tok = tokenize (model (eigen s)) c
                in if tok < 0 \<or> \<not> nat tok < alphSize s then Inl OutOfRange
                   else Inr ((replicate (alphSize s) MInf)[nat tok := Fin 0]))))"

text \<open>The row of \<open>logE\<close> for a row \<open>r\<close> that is not the root, from its new row of \<open>logF\<close>.\<close>

definition fillUp_logE :: "AlignColSumProduct \<Rightarrow> nat \<Rightarrow> dbl list \<Rightarrow> dbl list" where
  "fillUp_logE s r logFr =
     map (\<lambda>i. fold (\<lambda>j logEi. log_accum_exp logEi (branchLogSubProb s ! r ! i ! j + logFr ! j))
                [0..<alphSize s] MInf)
       [0..<alphSize s]"

definition fillUp_node :: "nat \<Rightarrow> AlignColSumProduct \<Rightarrow> error + AlignColSumProduct" where
  "fillUp_node r s =
     (case fillUp_logF s r of
        Inl err \<Rightarrow> Inl err
      | Inr logFr \<Rightarrow>
          (let s1 = s\<lparr>logF := (logF s)[r := logFr]\<rparr>
           in if r = root s then Inr (s1\<lparr>colLogLike := logInnerProduct logFr (logInsProb s)\<rparr>)
              else Inr (s1\<lparr>logE := (logE s)[r := fillUp_logE s r logFr]\<rparr>)))"

definition fillUp :: "AlignColSumProduct \<Rightarrow> error + AlignColSumProduct" where
  "fillUp s = foldE fillUp_node (ungappedRows s) (s\<lparr>colLogLike := MInf\<rparr>)"

subsection \<open>The root counts\<close>

definition accumulateRootCounts :: "AlignColSumProduct \<Rightarrow> dbl list \<Rightarrow> dbl list" where
  "accumulateRootCounts s rootCounts =
     map (\<lambda>i. rootCounts ! i + dexp (logInsProb s ! i + logF s ! root s ! i - colLogLike s))
       [0..<alphSize s]"

subsection \<open>Properties of initColumn\<close>

text \<open>
  What the constructor and the tree provide for a column: one row for every node, the
  column within every row, and every parent index below the number of nodes.
\<close>

definition column_ok :: "AlignColSumProduct \<Rightarrow> bool" where
  "column_ok s =
     (length (gapped s) = nodes (tree s)
      \<and> list_all (\<lambda>row. col s \<le> length row) (gapped s)
      \<and> list_all (\<lambda>n. parent n < int (nodes (tree s))) (tree s))"

lemma foldE_append:
  "foldE f (xs @ ys) s = (case foldE f xs s of Inl err \<Rightarrow> Inl err | Inr s' \<Rightarrow> foldE f ys s')"
  by (induction xs arbitrary: s) (auto split: sum.splits)

lemma foldE_Inl: "foldE f ys (s::'s) = Inl err \<Longrightarrow> foldE f (ys @ zs) s = Inl err"
  by (simp add: foldE_append)

lemma cell_ok:
  assumes "column_ok s" "r < nodes (tree s)"
  shows "\<exists>c. cell s r = Inr c"
  using assms by (auto simp: column_ok_def cell_def list_all_length)

lemma isGap_ok:
  assumes "column_ok s" "r < nodes (tree s)"
  shows "\<exists>b. isGap s r = Inr b"
  using cell_ok [OF assms] by (auto simp: isGap_def)

lemma isWild_ok:
  assumes "column_ok s" "r < nodes (tree s)"
  shows "\<exists>b. isWild s r = Inr b"
  using cell_ok [OF assms] by (auto simp: isWild_def)

lemma isGap_range: "isGap s p = Inr b \<Longrightarrow> p < length (gapped s)"
  by (auto simp: isGap_def cell_def split: if_splits sum.splits)

lemma parent_ok:
  assumes "column_ok s" "r < nodes (tree s)" "0 \<le> parentNode (tree s) r"
  shows "nat (parentNode (tree s) r) < nodes (tree s)"
  using assms by (auto simp: column_ok_def list_all_length parentNode_def nodes_def)

lemma initColumn_step_error:
  assumes ok: "column_ok s" and r: "r < nodes (tree s)" and len: "length kids = nodes (tree s)"
    and err: "initColumn_step s r (rows, kids, roots) = Inl e"
  shows "e = NotWildcard"
proof -
  obtain g where g: "isGap s r = Inr g" using isGap_ok [OF ok r] by blast
  obtain w where w: "isWild s r = Inr w" using isWild_ok [OF ok r] by blast
  show ?thesis
  proof (cases "0 \<le> parentNode (tree s) r")
    case True
    then have p: "nat (parentNode (tree s) r) < nodes (tree s)" using parent_ok [OF ok r] by simp
    obtain gp where gp: "isGap s (nat (parentNode (tree s) r)) = Inr gp"
      using isGap_ok [OF ok p] by blast
    show ?thesis using err g w gp p len True
      by (auto simp: initColumn_step_def Let_def split: if_splits bool.splits)
  next
    case False
    then show ?thesis using err g w
      by (auto simp: initColumn_step_def Let_def split: if_splits bool.splits)
  qed
qed

lemma initColumn_step_kids:
  assumes "initColumn_step s r (rows, kids, roots) = Inr (rows', kids', roots')"
  shows "length kids' = length kids" and "kids ! p \<le> kids' ! p"
    and "isGap s r = Inr False \<Longrightarrow> parentNode (tree s) r = int p \<Longrightarrow> isGap s p = Inr False
         \<Longrightarrow> kids ! p + 1 \<le> kids' ! p"
  using assms
  by (auto simp: initColumn_step_def Let_def nth_list_update
      split: if_splits bool.splits sum.splits)

text \<open>
  After the rows below \<open>k\<close>: \<^verbatim>\<open>ungappedKids\<close> counts, for an ungapped row \<open>p\<close>, at least
  every ungapped row below \<open>k\<close> whose parent is \<open>p\<close>.
\<close>

definition kids_inv :: "AlignColSumProduct \<Rightarrow> nat \<Rightarrow> int list \<Rightarrow> bool" where
  "kids_inv s k kids =
     (length kids = nodes (tree s) \<and> (\<forall>p<nodes (tree s). 0 \<le> kids ! p)
      \<and> (\<forall>c p. c < k \<and> isGap s c = Inr False \<and> parentNode (tree s) c = int p
                  \<and> isGap s p = Inr False \<longrightarrow> 1 \<le> kids ! p))"

lemma initColumn_prefix:
  assumes ok: "column_ok s" and k: "k \<le> nodes (tree s)"
  shows "(case foldE (initColumn_step s) [0..<k] ([], replicate (nodes (tree s)) 0, []) of
           Inl e \<Rightarrow> e = NotWildcard
         | Inr (rows, kids, roots) \<Rightarrow> kids_inv s k kids)"
  using k
proof (induction k)
  case 0
  show ?case by (simp add: kids_inv_def)
next
  case (Suc k)
  then have k: "k < nodes (tree s)" by simp
  let ?pre = "foldE (initColumn_step s) [0..<k] ([], replicate (nodes (tree s)) 0, [])"
  show ?case
  proof (cases ?pre)
    case (Inl e)
    with Suc show ?thesis by (simp add: foldE_append)
  next
    case (Inr st)
    obtain rows kids roots where st: "st = (rows, kids, roots)" by (cases st) auto
    have inv: "kids_inv s k kids" using Suc Inr st by simp
    show ?thesis
    proof (cases "initColumn_step s k (rows, kids, roots)")
      case (Inl e)
      then have "e = NotWildcard"
        using initColumn_step_error [OF ok k _ Inl] inv by (simp add: kids_inv_def)
      then show ?thesis using Inr st Inl by (simp add: foldE_append)
    next
      case (Inr st')
      obtain rows' kids' roots' where st': "st' = (rows', kids', roots')" by (cases st') auto
      note step = initColumn_step_kids [OF Inr [unfolded st']]
      have "kids_inv s (Suc k) kids'"
        unfolding kids_inv_def
      proof (intro conjI allI impI)
        show "length kids' = nodes (tree s)" using step(1) inv by (simp add: kids_inv_def)
        show "0 \<le> kids' ! p" if "p < nodes (tree s)" for p
          using step(2) [of p] inv that by (auto simp: kids_inv_def intro: order_trans)
        show "1 \<le> kids' ! p"
          if h: "c < Suc k \<and> isGap s c = Inr False \<and> parentNode (tree s) c = int p
                 \<and> isGap s p = Inr False" for c p
        proof (cases "c = k")
          case True
          have "p < length (gapped s)" using h isGap_range by blast
          then have "p < nodes (tree s)" using ok by (simp add: column_ok_def)
          then have "0 \<le> kids ! p" using inv by (simp add: kids_inv_def)
          then show ?thesis using step(3) [of p] h True by auto
        next
          case False
          then have "c < k" using h by simp
          then have "1 \<le> kids ! p" using inv h unfolding kids_inv_def by blast
          then show ?thesis using step(2) [of p] by linarith
        qed
      qed
      then show ?thesis using \<open>?pre = Inr st\<close> st Inr st' by (simp add: foldE_append)
    qed
  qed
qed

text \<open>
  C5, as the code has it. \<open>initColumn\<close> fails with the assertion on wildcards whenever a
  row that is ungapped in the column holds a character other than the wildcard and some
  row of smaller index, ungapped in the column, has it as parent (in a tree numbered
  children first: whenever it has an ungapped child in the column).
\<close>

theorem initColumn_NotWildcard:
  assumes ok: "column_ok s"
    and r: "r < nodes (tree s)"
    and c: "c < r"
    and pc: "parentNode (tree s) c = int r"
    and gc: "isGap s c = Inr False"
    and gr: "isGap s r = Inr False"
    and wr: "isWild s r = Inr False"
  shows "initColumn s = Inl NotWildcard"
proof -
  let ?f = "initColumn_step s"
  let ?init = "([], replicate (nodes (tree s)) 0, []) :: nat list \<times> int list \<times> nat list"
  have split: "[0..<nodes (tree s)] = [0..<r] @ r # [Suc r..<nodes (tree s)]"
    using r by (metis le_add2 le_add_same_cancel2 less_imp_add_positive upt_add_eq_append upt_conv_Cons)
  have pre: "(case foldE ?f [0..<r] ?init of
           Inl e \<Rightarrow> e = NotWildcard
         | Inr (rows, kids, roots) \<Rightarrow> kids_inv s r kids)"
    using initColumn_prefix [OF ok, of r] r by simp
  have "foldE ?f [0..<nodes (tree s)] ?init = Inl NotWildcard"
  proof (cases "foldE ?f [0..<r] ?init")
    case (Inl e)
    then show ?thesis using pre by (simp add: split foldE_append)
  next
    case (Inr st)
    obtain rows kids roots where st: "st = (rows, kids, roots)" by (cases st) auto
    have "kids_inv s r kids" using pre Inr st by simp
    then have "1 \<le> kids ! r" using c pc gc gr unfolding kids_inv_def by blast
    then have "?f r (rows, kids, roots) = Inl NotWildcard"
      using gr wr by (simp add: initColumn_step_def)
    then show ?thesis using Inr st by (simp add: split foldE_append)
  qed
  then show ?thesis by (simp add: initColumn_def)
qed

subsection \<open>The constructor, and an example\<close>

text \<open>
  The members as the constructor initialises them, before its call of \<^verbatim>\<open>initColumn\<close>.
  The tables of \<^verbatim>\<open>ProbModel\<close> and \<^verbatim>\<open>LogProbModel\<close> (model.h, not among the
  sources) are the parameter \<open>logSubProb\<close>, from a branch length to the table of the
  logarithms of the transition probabilities; \<open>colLogLike\<close> is not initialised, and
  \<open>junk\<close> is whatever it holds.
\<close>

definition AlignColSumProduct_init ::
  "EigenModel \<Rightarrow> Tree \<Rightarrow> string list \<Rightarrow> (char \<Rightarrow> bool) \<Rightarrow> char \<Rightarrow> (real \<Rightarrow> dbl list list)
     \<Rightarrow> dbl \<Rightarrow> AlignColSumProduct" where
  "AlignColSumProduct_init em tr g gapc wild logSubProb junk =
     \<lparr>eigen = em, tree = tr, gapped = g, isGapChar = gapc, wildcardChar = wild,
      logInsProb = log_gsl_vector (insProb (model em)),
      branchLogSubProb = map (\<lambda>r. logSubProb (branchLength tr r)) [0..<length g - 1] @ [[]],
      branchEigenSubCount = replicate (nodes tr) [],
      col = 0, ungappedRows = [], colLogLike = junk,
      logE = replicate (nodes tr) (replicate (alphabetSize (model em)) 0),
      logF = replicate (nodes tr) (replicate (alphabetSize (model em)) 0),
      logG = replicate (nodes tr) (replicate (alphabetSize (model em)) 0)\<rparr>"

text \<open>
  The constructor. With no row at all, \<^verbatim>\<open>gapped.size() - 1\<close> wraps around and the
  first loop leaves the tree.
\<close>

definition AlignColSumProduct_new ::
  "EigenModel \<Rightarrow> Tree \<Rightarrow> string list \<Rightarrow> (char \<Rightarrow> bool) \<Rightarrow> char \<Rightarrow> (real \<Rightarrow> dbl list list)
     \<Rightarrow> dbl \<Rightarrow> error + AlignColSumProduct" where
  "AlignColSumProduct_new em tr g gapc wild logSubProb junk =
     (if nodes tr \<noteq> length g then Inl RowCountMismatch
      else if g = [] then Inl OutOfRange
      else
        (case initColumn (AlignColSumProduct_init em tr g gapc wild logSubProb junk) of
           Inl err \<Rightarrow> Inl err
         | Inr s \<Rightarrow>
             Inr (s\<lparr>branchEigenSubCount :=
                      map (\<lambda>r. eigenSubCount em (branchLength tr r)) [0..<length g - 1] @ [[]]\<rparr>)))"

text \<open>
  An example: two leaves 0 and 1 under the root 2, branches of length zero, the
  two-letter model, gaps written \<open>-\<close> and the wildcard \<open>*\<close>. On a branch of length zero
  the transition matrix is the identity.
\<close>

definition tree3 :: Tree where
  "tree3 = [\<lparr>parent = 2, child = [], d = 0\<rparr>,
            \<lparr>parent = 2, child = [], d = 0\<rparr>,
            \<lparr>parent = - 1, child = [0, 1], d = 0\<rparr>]"

definition log_identity2 :: "dbl list list" where
  "log_identity2 = [[Fin 0, MInf], [MInf, Fin 0]]"

definition example_init :: "string list \<Rightarrow> AlignColSumProduct" where
  "example_init g =
     AlignColSumProduct_init jc2 tree3 g (\<lambda>c. c = CHR ''-'') (CHR ''*'') (\<lambda>t. log_identity2) NaN"

definition example_new :: "string list \<Rightarrow> error + AlignColSumProduct" where
  "example_new g =
     AlignColSumProduct_new jc2 tree3 g (\<lambda>c. c = CHR ''-'') (CHR ''*'') (\<lambda>t. log_identity2) NaN"

lemma example_fields [simp]:
  "tree (example_init g) = tree3" "gapped (example_init g) = g" "col (example_init g) = 0"
  "isGapChar (example_init g) = (\<lambda>c. c = CHR ''-'')" "wildcardChar (example_init g) = CHR ''*''"
  by (simp_all add: example_init_def AlignColSumProduct_init_def)

lemma tree3_simps [simp]:
  "nodes tree3 = 3" "parentNode tree3 0 = 2" "parentNode tree3 (Suc 0) = 2"
  "parentNode tree3 2 = - 1"
  by (simp_all add: tree3_def nodes_def parentNode_def)

lemma upt3: "[0..<3] = [0, Suc 0, 2]"
  by (simp add: upt_rec numeral_3_eq_3 numeral_2_eq_2)

theorem initColumn_NotWildcard_witness:
  "column_ok (example_init [''A'', ''A'', ''A''])
   \<and> isWild (example_init [''A'', ''A'', ''A'']) 2 = Inr False
   \<and> initColumn (example_init [''A'', ''A'', ''A'']) = Inl NotWildcard"
proof -
  let ?s = "example_init [''A'', ''A'', ''A'']"
  have "list_all (\<lambda>n. parent n < 3) tree3" by (simp add: tree3_def)
  then have ok: "column_ok ?s" by (simp add: column_ok_def)
  have g0: "isGap ?s 0 = Inr False" and g2: "isGap ?s 2 = Inr False"
    and w2: "isWild ?s 2 = Inr False"
    by (simp_all add: isGap_def isWild_def cell_def)
  have "initColumn ?s = Inl NotWildcard"
    by (rule initColumn_NotWildcard [OF ok _ _ _ g0 g2 w2]) simp_all
  with ok w2 show ?thesis by simp
qed

text \<open>
  C5 as stated fails: in the example, with both leaves gapped and the root holding the
  letter \<open>A\<close>, the root is an internal node, ungapped and not a wildcard, and
  \<open>initColumn\<close> succeeds with the root as the only ungapped row.
\<close>

theorem initColumn_accepts_counterexample:
  "\<not> isLeaf (tree (example_init [''-'', ''-'', ''A''])) 2
   \<and> isGap (example_init [''-'', ''-'', ''A'']) 2 = Inr False
   \<and> isWild (example_init [''-'', ''-'', ''A'']) 2 = Inr False
   \<and> initColumn (example_init [''-'', ''-'', ''A''])
       = Inr ((example_init [''-'', ''-'', ''A''])\<lparr>ungappedRows := [2]\<rparr>)"
proof -
  let ?s = "example_init [''-'', ''-'', ''A'']"
  have g: "isGap ?s 0 = Inr True" "isGap ?s (Suc 0) = Inr True" "isGap ?s 2 = Inr False"
    and w2: "isWild ?s 2 = Inr False"
    by (simp_all add: isGap_def isWild_def cell_def)
  have "initColumn ?s = Inr (?s\<lparr>ungappedRows := [2]\<rparr>)"
    by (simp add: initColumn_def upt3 initColumn_step_def g w2)
  moreover have "\<not> isLeaf (tree ?s) 2" by (simp add: isLeaf_def tree3_def)
  ultimately show ?thesis using g w2 by simp
qed

subsection \<open>Properties of fillUp\<close>

lemma initColumn_rows_prefix:
  "foldE (initColumn_step s) [0..<k] ([], replicate n 0, []) = Inr (rows, kids, roots)
   \<Longrightarrow> rows = filter (\<lambda>r. isGap s r = Inr False) [0..<k]"
proof (induction k arbitrary: rows kids roots)
  case 0
  then show ?case by simp
next
  case (Suc k)
  from Suc.prems obtain rows0 kids0 roots0 where
    pre: "foldE (initColumn_step s) [0..<k] ([], replicate n 0, []) = Inr (rows0, kids0, roots0)"
    and step: "initColumn_step s k (rows0, kids0, roots0) = Inr (rows, kids, roots)"
    by (auto simp: foldE_append split: sum.splits)
  have r0: "rows0 = filter (\<lambda>r. isGap s r = Inr False) [0..<k]" using Suc.IH [OF pre] .
  have "rows = (if isGap s k = Inr False then rows0 @ [k] else rows0)"
    using step
    by (auto simp: initColumn_step_def Let_def split: if_splits bool.splits sum.splits)
  then show ?case using r0 by simp
qed

lemma initColumn_form:
  assumes "initColumn s0 = Inr s"
  shows "s = s0\<lparr>ungappedRows := filter (\<lambda>r. isGap s0 r = Inr False) [0..<nodes (tree s0)]\<rparr>"
proof -
  obtain rows kids roots where
    f: "foldE (initColumn_step s0) [0..<nodes (tree s0)] ([], replicate (nodes (tree s0)) 0, [])
        = Inr (rows, kids, roots)"
    and s: "s = s0\<lparr>ungappedRows := rows\<rparr>"
    using assms by (auto simp: initColumn_def split: sum.splits if_splits prod.splits)
  show ?thesis unfolding s using initColumn_rows_prefix [OF f] by simp
qed

lemma initColumn_rows:
  assumes "initColumn s0 = Inr s"
  shows "ungappedRows s = filter (\<lambda>r. isGap s0 r = Inr False) [0..<nodes (tree s0)]"
    and "tree s = tree s0" and "logE s = logE s0" and "logF s = logF s0"
    and "isWild s r = isWild s0 r" and "isGap s r = isGap s0 r" and "alphSize s = alphSize s0"
  unfolding initColumn_form [OF assms]
  by (simp_all add: isWild_def isGap_def cell_def alphSize_def)

lemma initColumn_rows_sorted:
  assumes "initColumn s0 = Inr s"
  shows "sorted_wrt (<) (ungappedRows s)" and "set (ungappedRows s) \<subseteq> {..<nodes (tree s)}"
proof -
  show "sorted_wrt (<) (ungappedRows s)"
    unfolding initColumn_rows(1) [OF assms] by (rule sorted_wrt_filter) (rule sorted_wrt_upt)
  have "tree s = tree s0" using initColumn_rows(2) [OF assms] .
  then show "set (ungappedRows s) \<subseteq> {..<nodes (tree s)}"
    unfolding initColumn_rows(1) [OF assms] by auto
qed


lemma fillUp_logF_length:
  "fillUp_logF s r = Inr lf \<Longrightarrow> length lf = alphSize s"
  by (auto simp: fillUp_logF_def Let_def split: sum.splits bool.splits if_splits)

text \<open>What \<^verbatim>\<open>fillUp\<close> leaves as it is: everything but \<open>colLogLike\<close>, \<open>logE\<close> and \<open>logF\<close>.\<close>

definition same_column :: "AlignColSumProduct \<Rightarrow> AlignColSumProduct \<Rightarrow> bool" where
  "same_column s s' =
     (eigen s' = eigen s \<and> tree s' = tree s \<and> gapped s' = gapped s
      \<and> isGapChar s' = isGapChar s \<and> wildcardChar s' = wildcardChar s
      \<and> logInsProb s' = logInsProb s \<and> branchLogSubProb s' = branchLogSubProb s
      \<and> branchEigenSubCount s' = branchEigenSubCount s \<and> col s' = col s
      \<and> ungappedRows s' = ungappedRows s \<and> logG s' = logG s
      \<and> length (logE s') = length (logE s) \<and> length (logF s') = length (logF s))"

lemma same_column_refl: "same_column s s"
  by (simp add: same_column_def)

lemma same_column_trans: "same_column s s1 \<Longrightarrow> same_column s1 s' \<Longrightarrow> same_column s s'"
  by (simp add: same_column_def)

lemma same_column_fields:
  assumes "same_column s s'"
  shows "tree s' = tree s" "ungappedRows s' = ungappedRows s" "logInsProb s' = logInsProb s"
    "alphSize s' = alphSize s" "root s' = root s" "isWild s' r = isWild s r"
    "cell s' r = cell s r" "length (logF s') = length (logF s)"
    "length (logE s') = length (logE s)" "eigen s' = eigen s" "logG s' = logG s"
    "branchLogSubProb s' = branchLogSubProb s" "branchEigenSubCount s' = branchEigenSubCount s"
  using assms by (simp_all add: same_column_def alphSize_def root_def isWild_def cell_def)

lemma fillUp_node_form:
  assumes "fillUp_node r s = Inr s'"
  shows "\<exists>lf. fillUp_logF s r = Inr lf
           \<and> logF s' = (logF s)[r := lf]
           \<and> logE s' = (if r = root s then logE s else (logE s)[r := fillUp_logE s r lf])
           \<and> colLogLike s' =
               (if r = root s then logInnerProduct lf (logInsProb s) else colLogLike s)
           \<and> same_column s s'"
proof (cases "fillUp_logF s r")
  case (Inl err)
  then show ?thesis using assms by (simp add: fillUp_node_def)
next
  case (Inr lf)
  show ?thesis
  proof (cases "r = root s")
    case True
    then have "s' = s\<lparr>logF := (logF s)[r := lf],
                      colLogLike := logInnerProduct lf (logInsProb s)\<rparr>"
      using assms Inr by (simp add: fillUp_node_def Let_def)
    then show ?thesis using Inr True by (simp add: same_column_def)
  next
    case False
    then have "s' = s\<lparr>logF := (logF s)[r := lf],
                      logE := (logE s)[r := fillUp_logE s r lf]\<rparr>"
      using assms Inr by (simp add: fillUp_node_def Let_def)
    then show ?thesis using Inr False by (simp add: same_column_def)
  qed
qed

lemma fillUp_node_same: "fillUp_node r s = Inr s' \<Longrightarrow> same_column s s'"
  by (drule fillUp_node_form) blast

lemma fillUp_fold_same: "foldE fillUp_node xs s = Inr s' \<Longrightarrow> same_column s s'"
proof (induction xs arbitrary: s)
  case Nil
  then show ?case by (simp add: same_column_refl)
next
  case (Cons x xs)
  then obtain s1 where "fillUp_node x s = Inr s1" "foldE fillUp_node xs s1 = Inr s'"
    by (auto split: sum.splits)
  then show ?case using Cons.IH fillUp_node_same same_column_trans by blast
qed

lemma fillUp_node_other:
  assumes "fillUp_node x s = Inr s'" "r \<noteq> x"
  shows "logE s' ! r = logE s ! r" "logF s' ! r = logF s ! r"
proof -
  obtain lf where f: "logF s' = (logF s)[x := lf]"
    and e: "logE s' = (if x = root s then logE s else (logE s)[x := fillUp_logE s x lf])"
    using fillUp_node_form [OF assms(1)] by blast
  show "logE s' ! r = logE s ! r" unfolding e using assms(2) by simp
  show "logF s' ! r = logF s ! r" unfolding f using assms(2) by simp
qed

lemma map_nth_upt: "map (\<lambda>k. f (xs ! k)) [0..<length xs] = map f xs"
  by (rule nth_equalityI) simp_all

lemma fillUp_fold_other:
  "foldE fillUp_node xs s = Inr s' \<Longrightarrow> r \<notin> set xs
   \<Longrightarrow> logE s' ! r = logE s ! r \<and> logF s' ! r = logF s ! r"
proof (induction xs arbitrary: s)
  case Nil
  then show ?case by simp
next
  case (Cons x xs)
  then obtain s1 where s1: "fillUp_node x s = Inr s1" "foldE fillUp_node xs s1 = Inr s'"
    by (auto split: sum.splits)
  have "r \<noteq> x" "r \<notin> set xs" using Cons.prems by auto
  then show ?case using Cons.IH [OF s1(2)] fillUp_node_other [OF s1(1)] by simp
qed

lemma fillUp_node_wild:
  assumes "fillUp_node r s = Inr s'" "isWild s r = Inr True" "r < length (logF s)"
    "i < alphSize s"
  shows "logF s' ! r ! i = (\<Sum>c\<leftarrow>child (tree s ! r). logE s ! c ! i)"
proof -
  have "map (\<lambda>nc. logE s ! (child (tree s ! r) ! nc) ! i) [0..<length (child (tree s ! r))]
        = map (\<lambda>c. logE s ! c ! i) (child (tree s ! r))" for i
    by (rule map_nth_upt)
  then have "fillUp_logF s r =
      Inr (map (\<lambda>i. \<Sum>c\<leftarrow>child (tree s ! r). logE s ! c ! i) [0..<alphSize s])"
    using assms(2) by (simp add: fillUp_logF_def nChildren_def getChild_def)
  moreover obtain lf where "fillUp_logF s r = Inr lf" "logF s' = (logF s)[r := lf]"
    using fillUp_node_form [OF assms(1)] by blast
  ultimately show ?thesis using assms(3,4) by simp
qed

lemma fillUp_fold_wild:
  assumes "foldE fillUp_node xs s = Inr s'" "sorted_wrt (<) xs" "r \<in> set xs"
    "r < length (logF s)" "isWild s r = Inr True" "i < alphSize s"
    "\<forall>c\<in>set (child (tree s ! r)). c < r"
  shows "logF s' ! r ! i = (\<Sum>c\<leftarrow>child (tree s ! r). logE s' ! c ! i)"
  using assms
proof (induction xs arbitrary: s)
  case Nil
  then show ?case by simp
next
  case (Cons x xs)
  then obtain s1 where s1: "fillUp_node x s = Inr s1" "foldE fillUp_node xs s1 = Inr s'"
    by (auto split: sum.splits)
  note same = same_column_fields [OF fillUp_node_same [OF s1(1)]]
  show ?case
  proof (cases "r = x")
    case True
    have above: "\<forall>y\<in>set xs. x < y" using Cons.prems(2) by simp
    then have rx: "r \<notin> set xs" using True by auto
    have "logF s' ! r ! i = logF s1 ! r ! i"
      using fillUp_fold_other [OF s1(2) rx] by simp
    also have "\<dots> = (\<Sum>c\<leftarrow>child (tree s ! r). logE s ! c ! i)"
      using fillUp_node_wild [OF s1(1) [folded True] Cons.prems(5,4,6)] .
    also have "\<dots> = (\<Sum>c\<leftarrow>child (tree s ! r). logE s' ! c ! i)"
    proof (rule arg_cong [where f = sum_list], rule map_cong [OF refl])
      fix c assume c: "c \<in> set (child (tree s ! r))"
      then have cr: "c < r" using Cons.prems(7) by blast
      then have "c \<notin> set xs" using above True by auto
      then have "logE s' ! c = logE s1 ! c" using fillUp_fold_other [OF s1(2)] by simp
      also have "\<dots> = logE s ! c" using fillUp_node_other [OF s1(1)] cr True by simp
      finally show "logE s ! c ! i = logE s' ! c ! i" by simp
    qed
    finally show ?thesis .
  next
    case False
    then have "r \<in> set xs" using Cons.prems(3) by simp
    moreover have "sorted_wrt (<) xs" using Cons.prems(2) by simp
    ultimately show ?thesis
      using Cons.IH [OF s1(2)] Cons.prems(4-7) same by simp
  qed
qed

lemma sum_list_filter_split:
  fixes g :: "'a \<Rightarrow> 'b::comm_monoid_add"
  shows "(\<Sum>x\<leftarrow>xs. g x) = (\<Sum>x\<leftarrow>filter P xs. g x) + (\<Sum>x\<leftarrow>filter (\<lambda>x. \<not> P x) xs. g x)"
  by (induction xs) (simp_all add: ac_simps)

text \<open>
  What \<open>fillUp\<close> computes for a wildcard row. After \<open>initColumn\<close> and \<open>fillUp\<close>, for a
  wildcard row \<open>r\<close> among the ungapped rows whose children all have smaller indices, and
  every state \<open>i\<close>, \<open>logF[r][i]\<close> is the sum of \<open>logE[c][i]\<close> over all the children \<open>c\<close> of \<open>r\<close>
  in the tree: the children among the ungapped rows come with the value this pass has
  computed for them, and every child whose row is gapped comes with the value that \<open>logE\<close>
  held for it before the pass.
\<close>

lemma fillUp_wildcard_sum:
  assumes init: "initColumn s0 = Inr s"
    and up: "fillUp s = Inr s'"
    and r: "r \<in> set (ungappedRows s)"
    and wild: "isWild s r = Inr True"
    and i: "i < alphSize s"
    and size: "length (logF s) = nodes (tree s)"
    and post: "\<forall>c\<in>set (child (tree s ! r)). c < r"
  shows "logF s' ! r ! i =
           (\<Sum>c\<leftarrow>filter (\<lambda>c. c \<in> set (ungappedRows s)) (child (tree s ! r)). logE s' ! c ! i)
         + (\<Sum>c\<leftarrow>filter (\<lambda>c. c \<notin> set (ungappedRows s)) (child (tree s ! r)). logE s ! c ! i)"
proof -
  let ?s = "s\<lparr>colLogLike := MInf\<rparr>"
  have fold: "foldE fillUp_node (ungappedRows s) ?s = Inr s'" using up by (simp add: fillUp_def)
  have "isWild ?s r = isWild s r" by (simp add: isWild_def cell_def)
  then have w: "isWild ?s r = Inr True" using wild by simp
  have i': "i < alphSize ?s" using i by (simp add: alphSize_def)
  have post': "\<forall>c\<in>set (child (tree ?s ! r)). c < r" using post by simp
  have rlen: "r < length (logF ?s)" using initColumn_rows_sorted(2) [OF init] r size by auto
  have "logF s' ! r ! i = (\<Sum>c\<leftarrow>child (tree ?s ! r). logE s' ! c ! i)"
    by (rule fillUp_fold_wild [OF fold initColumn_rows_sorted(1) [OF init] r rlen w i' post'])
  then have "logF s' ! r ! i = (\<Sum>c\<leftarrow>child (tree s ! r). logE s' ! c ! i)"
    by simp
  also have "\<dots> = (\<Sum>c\<leftarrow>filter (\<lambda>c. c \<in> set (ungappedRows s)) (child (tree s ! r)). logE s' ! c ! i)
         + (\<Sum>c\<leftarrow>filter (\<lambda>c. c \<notin> set (ungappedRows s)) (child (tree s ! r)). logE s' ! c ! i)"
    by (rule sum_list_filter_split)
  also have "(\<Sum>c\<leftarrow>filter (\<lambda>c. c \<notin> set (ungappedRows s)) (child (tree s ! r)). logE s' ! c ! i)
      = (\<Sum>c\<leftarrow>filter (\<lambda>c. c \<notin> set (ungappedRows s)) (child (tree s ! r)). logE s ! c ! i)"
  proof (rule arg_cong [where f = sum_list], rule map_cong [OF refl])
    fix c assume "c \<in> set (filter (\<lambda>c. c \<notin> set (ungappedRows s)) (child (tree s ! r)))"
    then have "c \<notin> set (ungappedRows s)" by simp
    then show "logE s' ! c ! i = logE s ! c ! i"
      using fillUp_fold_other [OF fold] by simp
  qed
  finally show ?thesis .
qed

subsection \<open>The example, run over two columns\<close>

lemma example_more_fields [simp]:
  "alphSize (example_init g) = 2"
  "alphabetSize (model (eigen (example_init g))) = 2"
  "logE (example_init g) = [[0, 0], [0, 0], [0, 0]]"
  "logF (example_init g) = [[0, 0], [0, 0], [0, 0]]"
  "logInsProb (example_init g) = [Fin (ln (1 / 2)), Fin (ln (1 / 2))]"
  "length g = 3 \<Longrightarrow> branchLogSubProb (example_init g) = [log_identity2, log_identity2, []]"
  "tokenize (model (eigen (example_init g))) CHR ''A'' = 0"
  "tokenize (model (eigen (example_init g))) CHR ''B'' = 1"
  by (simp_all add: example_init_def AlignColSumProduct_init_def alphSize_def jc2_size
      log_gsl_vector_def jc2_def jc2_model_def numeral_3_eq_3 numeral_2_eq_2 upt_rec)

lemma upt2: "[0..<2] = [0, Suc 0]"
  by (simp add: upt_rec numeral_2_eq_2)

text \<open>
  Three rows of two columns: the first leaf has a letter and then a gap, the second leaf
  two letters, the root two wildcards. The states below are the ones that the
  constructor, \<open>fillUp\<close>, \<open>nextColumn\<close> and \<open>fillUp\<close> again go through.
\<close>

definition ex_g :: "string list" where "ex_g = [''A-'', ''AB'', ''**'']"

lemma ex_initColumn0:
  "initColumn (example_init ex_g) = Inr ((example_init ex_g)\<lparr>ungappedRows := [0, 1, 2]\<rparr>)"
  by (simp add: initColumn_def upt3 initColumn_step_def isGap_def isWild_def cell_def ex_g_def)

lemmas run_simps = fillUp_def fillUp_node_def fillUp_logF_def fillUp_logE_def isWild_def isGap_def
  cell_def ex_g_def root_def alphSize_def Let_def upt2 upt3 log_identity2_def numeral_2_eq_2
  nChildren_def getChild_def tree3_def logInnerProduct_def zero_dbl_def initColumn_def
  initColumn_step_def nextColumn_def alignmentDone_def nodes_def parentNode_def

definition ex_col0 :: AlignColSumProduct where
  "ex_col0 = (example_init ex_g)
     \<lparr>branchEigenSubCount := [eigenSubCount jc2 0, eigenSubCount jc2 0, []],
      ungappedRows := [0, 1, 2]\<rparr>"

definition ex_up0 :: AlignColSumProduct where
  "ex_up0 = ex_col0\<lparr>colLogLike := Fin (ln (1 / 2)),
      logE := [[Fin 0, MInf], [Fin 0, MInf], [Fin 0, Fin 0]],
      logF := [[Fin 0, MInf], [Fin 0, MInf], [Fin 0, MInf]]\<rparr>"

definition ex_col1 :: AlignColSumProduct where
  "ex_col1 = ex_up0\<lparr>col := 1, ungappedRows := [1, 2]\<rparr>"

definition ex_up1 :: AlignColSumProduct where
  "ex_up1 = ex_col1\<lparr>colLogLike := MInf,
      logE := [[Fin 0, MInf], [MInf, Fin 0], [Fin 0, Fin 0]],
      logF := [[Fin 0, MInf], [MInf, Fin 0], [MInf, MInf]]\<rparr>"

lemma ex_run0: "example_new ex_g = Inr ex_col0"
proof -
  have i: "initColumn (example_init ex_g) = Inr ((example_init ex_g)\<lparr>ungappedRows := [0, 1, 2]\<rparr>)"
    by (simp add: run_simps)
  have n: "nodes tree3 = length ex_g" "ex_g \<noteq> []"
    "map (\<lambda>r. eigenSubCount jc2 (branchLength tree3 r)) [0..<length ex_g - 1] @ [[]]
     = [eigenSubCount jc2 0, eigenSubCount jc2 0, []]"
    by (simp_all add: ex_g_def upt2 branchLength_def tree3_def nodes_def)
  have "AlignColSumProduct_new jc2 tree3 ex_g (\<lambda>c. c = CHR ''-'') (CHR ''*'')
          (\<lambda>t. log_identity2) NaN
        = (case initColumn (example_init ex_g) of
             Inl err \<Rightarrow> Inl err
           | Inr s \<Rightarrow> Inr (s\<lparr>branchEigenSubCount :=
                      [eigenSubCount jc2 0, eigenSubCount jc2 0, []]\<rparr>))"
    unfolding AlignColSumProduct_new_def example_init_def n(3) using n(1,2) by simp
  then show ?thesis
    unfolding example_new_def i ex_col0_def by simp
qed

lemma ex_run1: "fillUp ex_col0 = Inr ex_up0"
  by (simp add: ex_up0_def ex_col0_def run_simps)

lemma ex_run2: "nextColumn ex_up0 = Inr ex_col1"
  by (simp add: ex_col1_def ex_up0_def ex_col0_def run_simps)

lemma ex_run3: "fillUp ex_col1 = Inr ex_up1"
  by (simp add: ex_up1_def ex_col1_def ex_up0_def ex_col0_def run_simps)


text \<open>
  C4 fails on the code. In the second column of the example the first leaf is gapped and
  the second holds the letter \<open>B\<close>. The root, a wildcard, gets the sum over both its
  children, with the value of \<open>logE\<close> that the first column, where the first leaf held the
  letter \<open>A\<close>, left for the gapped leaf: \<open>logF[2]\<close> is minus infinity for both letters and
  the likelihood of the column is zero. The sum over the ungapped children alone is
  minus infinity for \<open>A\<close> and 0 for \<open>B\<close>, which gives the likelihood one half.
\<close>

theorem fillUp_gapped_child:
  "example_new ex_g = Inr ex_col0 \<and> fillUp ex_col0 = Inr ex_up0
   \<and> nextColumn ex_up0 = Inr ex_col1 \<and> fillUp ex_col1 = Inr ex_up1
   \<and> ungappedRows ex_col1 = [1, 2] \<and> isWild ex_col1 2 = Inr True
   \<and> child (tree ex_col1 ! 2) = [0, 1]
   \<and> logF ex_up1 ! 2 = [MInf, MInf]
   \<and> colLogLike ex_up1 = MInf
   \<and> map (\<lambda>i. \<Sum>c\<leftarrow>filter (\<lambda>c. c \<in> set (ungappedRows ex_col1)) (child (tree ex_col1 ! 2)).
                  logE ex_up1 ! c ! i) [0..<alphSize ex_col1] = [MInf, Fin 0]
   \<and> logInnerProduct [MInf, Fin 0] (logInsProb ex_col1) = Fin (ln (1 / 2))"
proof -
  have "ungappedRows ex_col1 = [1, 2]" "isWild ex_col1 2 = Inr True"
    "child (tree ex_col1 ! 2) = [0, 1]" "logF ex_up1 ! 2 = [MInf, MInf]"
    "colLogLike ex_up1 = MInf"
    "logE ex_up1 ! 1 = [MInf, Fin 0]" "alphSize ex_col1 = 2"
    "logInnerProduct [MInf, Fin 0] (logInsProb ex_col1) = Fin (ln (1 / 2))"
    by (simp_all add: ex_up1_def ex_col1_def ex_up0_def ex_col0_def run_simps)
  then show ?thesis using ex_run0 ex_run1 ex_run2 ex_run3 by (simp add: upt2)
qed

subsection \<open>The root counts of a column\<close>

text \<open>The probability that a log-probability stands for, where it is one.\<close>

fun pr :: "dbl \<Rightarrow> real" where
  "pr (Fin a) = exp a"
| "pr MInf = 0"
| "pr PInf = 0"
| "pr NaN = 0"

fun is_logprob :: "dbl \<Rightarrow> bool" where
  "is_logprob (Fin a) = True"
| "is_logprob MInf = True"
| "is_logprob PInf = False"
| "is_logprob NaN = False"

lemma ln_sum_exp:
  fixes a b :: real
  shows "exp (max a b + ln (1 + exp (- \<bar>a - b\<bar>))) = exp a + exp b"
proof -
  have pos: "0 < 1 + exp (- \<bar>a - b\<bar>)" by (simp add: add_pos_pos)
  have "exp (max a b + ln (1 + exp (- \<bar>a - b\<bar>))) = exp (max a b) * (1 + exp (- \<bar>a - b\<bar>))"
    using pos by (simp add: exp_add)
  also have "\<dots> = exp a + exp b"
  proof (cases "a \<le> b")
    case True
    then have "exp (max a b) * (1 + exp (- \<bar>a - b\<bar>)) = exp b + exp b * exp (a - b)"
      by (simp add: max_def algebra_simps)
    also have "exp b * exp (a - b) = exp a" by (simp add: exp_add [symmetric])
    finally show ?thesis by simp
  next
    case False
    then have "exp (max a b) * (1 + exp (- \<bar>a - b\<bar>)) = exp a + exp a * exp (b - a)"
      by (simp add: max_def algebra_simps)
    also have "exp a * exp (b - a) = exp b" by (simp add: exp_add [symmetric])
    finally show ?thesis by simp
  qed
  finally show ?thesis .
qed

lemma log_accum_exp_logprob:
  assumes "is_logprob (log_accum_exp a b)"
  shows "is_logprob a \<and> is_logprob b \<and> pr (log_accum_exp a b) = pr a + pr b"
  using assms by (cases a; cases b) (simp_all add: ln_sum_exp del: exp_add)

lemma fold_log_accum_exp:
  assumes "is_logprob (fold (\<lambda>x acc. log_accum_exp acc x) xs a)"
  shows "is_logprob a \<and> list_all is_logprob xs
       \<and> pr (fold (\<lambda>x acc. log_accum_exp acc x) xs a) = pr a + sum_list (map pr xs)"
  using assms
proof (induction xs arbitrary: a)
  case Nil
  then show ?case by simp
next
  case (Cons x xs)
  then have ih: "is_logprob (log_accum_exp a x)" "list_all is_logprob xs"
    "pr (fold (\<lambda>x acc. log_accum_exp acc x) xs (log_accum_exp a x))
       = pr (log_accum_exp a x) + sum_list (map pr xs)"
    by simp_all
  show ?case using ih log_accum_exp_logprob [OF ih(1)] by simp
qed

lemma logInnerProduct_terms:
  assumes "length v = n" "length w = n"
  shows "logInnerProduct v w = fold (\<lambda>x acc. log_accum_exp acc x) (map (\<lambda>i. v ! i + w ! i) [0..<n]) MInf"
proof -
  have "map (\<lambda>(a, b). a + b) (zip v w) = map (\<lambda>i. v ! i + w ! i) [0..<n]"
    using assms by (intro nth_equalityI) simp_all
  moreover have "logInnerProduct v w
      = fold (\<lambda>x acc. log_accum_exp acc x) (map (\<lambda>(a, b). a + b) (zip v w)) MInf"
    by (simp add: logInnerProduct_def fold_map comp_def case_prod_unfold)
  ultimately show ?thesis by simp
qed

lemma dexp_shift:
  assumes "is_logprob x"
  shows "dexp (x - Fin c) = Fin (pr x / exp c)"
  using assms by (cases x) (simp_all add: minus_dbl_def exp_diff)

lemma sum_list_Fin: "(\<Sum>x\<leftarrow>xs. Fin (f x)) = Fin (\<Sum>x\<leftarrow>xs. f x)"
  by (induction xs) (simp_all add: zero_dbl_def)

lemma sum_list_div_const:
  fixes k :: real
  shows "(\<Sum>x\<leftarrow>xs. f x / k) = (\<Sum>x\<leftarrow>xs. f x) / k"
  by (induction xs) (simp_all add: add_divide_distrib)

lemma fillUp_colLogLike:
  assumes up: "fillUp s = Inr s'" and ne: "ungappedRows s \<noteq> []"
    and r: "root s < length (logF s)"
  shows "colLogLike s' = logInnerProduct (logF s' ! root s') (logInsProb s')"
    and "length (logF s' ! root s') = alphSize s'"
    and "same_column s s'"
proof -
  let ?s = "s\<lparr>colLogLike := MInf\<rparr>"
  have rows: "ungappedRows s = butlast (ungappedRows s) @ [root s]"
    using ne by (simp add: root_def)
  have "foldE fillUp_node (butlast (ungappedRows s) @ [root s]) ?s = Inr s'"
    using up rows by (simp add: fillUp_def)
  then obtain s1 where s1: "foldE fillUp_node (butlast (ungappedRows s)) ?s = Inr s1"
    and last: "fillUp_node (root s) s1 = Inr s'"
    by (auto simp: foldE_append split: sum.splits)
  have same0: "same_column s ?s" by (simp add: same_column_def)
  note same1 = same_column_trans [OF same0 fillUp_fold_same [OF s1]]
  note f1 = same_column_fields [OF same1]
  obtain lf where lf: "fillUp_logF s1 (root s) = Inr lf"
    and F: "logF s' = (logF s1)[root s := lf]"
    and C: "colLogLike s' =
               (if root s = root s1 then logInnerProduct lf (logInsProb s1) else colLogLike s1)"
    and same2: "same_column s1 s'"
    using fillUp_node_form [OF last] by blast
  note f2 = same_column_fields [OF same2]
  have nth: "logF s' ! root s = lf" unfolding F using r f1(8) by simp
  show "same_column s s'" using same1 same2 by (rule same_column_trans)
  show "colLogLike s' = logInnerProduct (logF s' ! root s') (logInsProb s')"
    using C nth f1 f2 by simp
  show "length (logF s' ! root s') = alphSize s'"
    using fillUp_logF_length [OF lf] nth f1 f2 by simp
qed

text \<open>
  C9, as the code has it. After \<open>fillUp\<close> on a column with an ungapped row, whenever the
  column log-likelihood that it leaves is finite, one call of \<open>accumulateRootCounts\<close> adds
  to the entries of the vector finite amounts that are not negative and whose sum is
  exactly 1: the amounts are \<open>exp (log\<pi>[i] + logF[root][i] - colLogLike)\<close> and \<open>colLogLike\<close>
  is the log-sum-exp of the terms \<open>log\<pi>[i] + logF[root][i]\<close>.
\<close>

theorem accumulateRootCounts_total:
  assumes up: "fillUp s = Inr s'"
    and ne: "ungappedRows s \<noteq> []"
    and r: "root s < length (logF s)"
    and len: "length (logInsProb s) = alphSize s"
    and fin: "colLogLike s' = Fin c"
  shows "\<exists>ds. length ds = alphSize s' \<and> list_all (\<lambda>x. 0 \<le> x) ds \<and> sum_list ds = 1
            \<and> (\<forall>rootCounts. accumulateRootCounts s' rootCounts
                  = map (\<lambda>i. rootCounts ! i + Fin (ds ! i)) [0..<alphSize s'])"
proof -
  let ?A = "alphSize s'"
  let ?x = "\<lambda>i. logF s' ! root s' ! i + logInsProb s' ! i"
  note col = fillUp_colLogLike [OF up ne r]
  note f = same_column_fields [OF col(3)]
  have lenp: "length (logInsProb s') = ?A" using len f by simp
  have c: "Fin c = fold (\<lambda>x acc. log_accum_exp acc x) (map ?x [0..<?A]) MInf"
    using fin col(1) logInnerProduct_terms [OF col(2) lenp] by simp
  have lp: "is_logprob (fold (\<lambda>x acc. log_accum_exp acc x) (map ?x [0..<?A]) MInf)"
    unfolding c [symmetric] by simp
  note lse = fold_log_accum_exp [OF lp]
  have all: "is_logprob (?x i)" if "i < ?A" for i
    using lse that by (simp add: list_all_iff)
  have "pr (Fin c) = pr MInf + sum_list (map pr (map ?x [0..<?A]))"
    using lse unfolding c [symmetric] by blast
  then have tot: "exp c = (\<Sum>i\<leftarrow>[0..<?A]. pr (?x i))"
    by (simp add: comp_def)
  let ?ds = "map (\<lambda>i. pr (?x i) / exp c) [0..<?A]"
  have inc: "dexp (logInsProb s' ! i + logF s' ! root s' ! i - colLogLike s') = Fin (?ds ! i)"
    if "i < ?A" for i
    using dexp_shift [OF all [OF that], of c] that fin by (simp add: add.commute)
  have "length ?ds = ?A" by simp
  moreover have "list_all (\<lambda>x. 0 \<le> x) ?ds"
  proof -
    have "0 \<le> pr x" for x by (cases x) simp_all
    then show ?thesis by (simp add: list_all_iff)
  qed
  moreover have "sum_list ?ds = 1"
  proof -
    have "sum_list ?ds = (\<Sum>i\<leftarrow>[0..<?A]. pr (?x i)) / exp c"
      by (simp add: comp_def sum_list_div_const)
    then show ?thesis unfolding tot [symmetric] by simp
  qed
  moreover have "accumulateRootCounts s' rootCounts
                  = map (\<lambda>i. rootCounts ! i + Fin (?ds ! i)) [0..<?A]" for rootCounts
    unfolding accumulateRootCounts_def
    by (rule map_cong [OF refl]) (use inc in simp)
  ultimately show ?thesis by blast
qed


theorem accumulateRootCounts_total_witness:
  "fillUp ex_col0 = Inr ex_up0 \<and> ungappedRows ex_col0 = [0, 1, 2]
   \<and> colLogLike ex_up0 = Fin (ln (1 / 2))
   \<and> (\<exists>ds. sum_list ds = 1 \<and> accumulateRootCounts ex_up0 [Fin 0, Fin 0]
                 = map (\<lambda>i. [Fin 0, Fin 0] ! i + Fin (ds ! i)) [0..<alphSize ex_up0])
   \<and> accumulateRootCounts ex_up0 [Fin 0, Fin 0] = [Fin 1, Fin 0]"
proof -
  have f: "ungappedRows ex_col0 = [0, 1, 2]" "root ex_col0 < length (logF ex_col0)"
    "length (logInsProb ex_col0) = alphSize ex_col0" "colLogLike ex_up0 = Fin (ln (1 / 2))"
    by (simp_all add: ex_up0_def ex_col0_def run_simps)
  have ne: "ungappedRows ex_col0 \<noteq> []" by (simp add: f)
  have "\<exists>ds. sum_list ds = 1 \<and> accumulateRootCounts ex_up0 [Fin 0, Fin 0]
                 = map (\<lambda>i. [Fin 0, Fin 0] ! i + Fin (ds ! i)) [0..<alphSize ex_up0]"
    using accumulateRootCounts_total [OF ex_run1 ne f(2,3,4)] by blast
  moreover have "accumulateRootCounts ex_up0 [Fin 0, Fin 0] = [Fin 1, Fin 0]"
    by (simp add: accumulateRootCounts_def ex_up0_def ex_col0_def run_simps minus_dbl_def)
  ultimately show ?thesis using ex_run1 f by blast
qed

text \<open>
  A column of likelihood zero: on branches of length zero the two leaves hold different
  letters.
\<close>

definition exz_col :: AlignColSumProduct where
  "exz_col = (example_init [''A'', ''B'', ''*''])
     \<lparr>branchEigenSubCount := [eigenSubCount jc2 0, eigenSubCount jc2 0, []],
      ungappedRows := [0, 1, 2]\<rparr>"

definition exz_up :: AlignColSumProduct where
  "exz_up = exz_col\<lparr>colLogLike := MInf,
      logE := [[Fin 0, MInf], [MInf, Fin 0], [Fin 0, Fin 0]],
      logF := [[Fin 0, MInf], [MInf, Fin 0], [MInf, MInf]]\<rparr>"

lemma exz_run0: "example_new [''A'', ''B'', ''*''] = Inr exz_col"
proof -
  let ?g = "[''A'', ''B'', ''*'']"
  have i: "initColumn (example_init ?g) = Inr ((example_init ?g)\<lparr>ungappedRows := [0, 1, 2]\<rparr>)"
    by (simp add: run_simps)
  have n: "nodes tree3 = length ?g" "?g \<noteq> []"
    "map (\<lambda>r. eigenSubCount jc2 (branchLength tree3 r)) [0..<length ?g - 1] @ [[]]
     = [eigenSubCount jc2 0, eigenSubCount jc2 0, []]"
    by (simp_all add: upt2 branchLength_def tree3_def nodes_def)
  have "AlignColSumProduct_new jc2 tree3 ?g (\<lambda>c. c = CHR ''-'') (CHR ''*'')
          (\<lambda>t. log_identity2) NaN
        = (case initColumn (example_init ?g) of
             Inl err \<Rightarrow> Inl err
           | Inr s \<Rightarrow> Inr (s\<lparr>branchEigenSubCount :=
                      [eigenSubCount jc2 0, eigenSubCount jc2 0, []]\<rparr>))"
    unfolding AlignColSumProduct_new_def example_init_def n(3) using n(1,2) by simp
  then show ?thesis
    unfolding example_new_def i exz_col_def by simp
qed

lemma exz_run1: "fillUp exz_col = Inr exz_up"
  by (simp add: exz_up_def exz_col_def run_simps)

text \<open>
  C9 as stated fails: on the column of likelihood zero \<open>colLogLike\<close> is minus infinity, and
  the amounts added are not numbers.
\<close>

theorem accumulateRootCounts_zero_counterexample:
  "example_new [''A'', ''B'', ''*''] = Inr exz_col \<and> fillUp exz_col = Inr exz_up
   \<and> ungappedRows exz_col = [0, 1, 2]
   \<and> colLogLike exz_up = MInf
   \<and> accumulateRootCounts exz_up [Fin 0, Fin 0] = [NaN, NaN]"
proof -
  have "accumulateRootCounts exz_up [Fin 0, Fin 0] = [NaN, NaN]"
    "ungappedRows exz_col = [0, 1, 2]" "colLogLike exz_up = MInf"
    by (simp_all add: accumulateRootCounts_def exz_up_def exz_col_def run_simps minus_dbl_def)
  then show ?thesis using exz_run0 exz_run1 by simp
qed

section \<open>sampler.cpp: the choice of the node to resample\<close>

text \<open>
  Modelled from the spec: \<^verbatim>\<open>random_element\<close> of util.h, which is not among the
  sources: it picks an element of the vector uniformly with the generator. The generator
  is represented by the natural number it yields, which the distribution over the indices
  \<open>0, ..., size - 1\<close> reduces to that range. On an empty vector there is no such range.
\<close>

definition random_element :: "'a list \<Rightarrow> nat \<Rightarrow> error + 'a" where
  "random_element v generator =
     (if v = [] then Inl EmptyChoice else Inr (v ! (generator mod length v)))"

text \<open>The local vector \<^verbatim>\<open>intNodes\<close> of \<^verbatim>\<open>randomInternalNode\<close>, after its loop.\<close>

definition intNodes :: "Tree \<Rightarrow> nat list" where
  "intNodes t = filter (\<lambda>n. \<not> isLeaf t n) [0..<nodes t]"

definition randomInternalNode :: "Tree \<Rightarrow> nat \<Rightarrow> error + nat" where
  "randomInternalNode t generator = random_element (intNodes t) generator"

text \<open>
  Modelled from the spec: \<^verbatim>\<open>Tree::closestLeaf\<close> of tree.h, which is not among the
  sources. Section 6 of the specification: \<open>closest_leaf (n, &dist)\<close>, the leaf below a node
  that is closest to it and its distance. The search goes down at most as many levels as
  the tree has nodes; a leaf is its own closest leaf. The node has to be a node of the
  tree.
\<close>

fun closestLeafBelow :: "Tree \<Rightarrow> nat \<Rightarrow> nat \<Rightarrow> nat \<times> real" where
  "closestLeafBelow t 0 n = (n, 0)"
| "closestLeafBelow t (Suc k) n =
     (case map (\<lambda>c. (fst (closestLeafBelow t k c),
                      snd (closestLeafBelow t k c) + branchLength t c))
             (child (t ! n)) of
        [] \<Rightarrow> (n, 0)
      | x # xs \<Rightarrow> fold (\<lambda>y best. if snd y < snd best then y else best) xs x)"

definition closestLeaf :: "Tree \<Rightarrow> int \<Rightarrow> error + nat \<times> real" where
  "closestLeaf t n =
     (if n < 0 \<or> \<not> nat n < nodes t then Inl OutOfRange
      else Inr (closestLeafBelow t (nodes t) (nat n)))"

text \<open>
  \<^verbatim>\<open>guideSeqPos\<close>. The path maps a row to its bits, and \<^verbatim>\<open>path.at\<close> fails for a
  row that the path does not hold. The number of columns, which \<^verbatim>\<open>alignPathColumns\<close>
  (not among the sources) reads from the path, is given.
\<close>

definition guideSeqPos ::
  "(nat \<Rightarrow> bool list option) \<Rightarrow> nat \<Rightarrow> nat \<Rightarrow> nat \<Rightarrow> error + nat list" where
  "guideSeqPos path cols row guideRow =
     (case path row of
        None \<Rightarrow> Inl OutOfRange
      | Some rowPath \<Rightarrow>
          (case path guideRow of
             None \<Rightarrow> Inl OutOfRange
           | Some guideRowPath \<Rightarrow>
               if \<not> (cols \<le> length rowPath \<and> cols \<le> length guideRowPath) then Inl OutOfRange
               else Inr (fst (fold (\<lambda>c (guidePos, pos).
                                      (if rowPath ! c then guidePos @ [pos] else guidePos,
                                       if guideRowPath ! c then pos + 1 else pos))
                                [0..<cols] ([], 0)))))"

text \<open>
  What the constructor of \<^verbatim>\<open>SampleNodeMove\<close> reads: the history, a tree with one row
  of the alignment for every node, and of the sampler the model, the guide alignment and
  what tells a gap character (\<^verbatim>\<open>Alignment::isGap\<close>, not among the sources).
\<close>

record History =
  history_tree :: Tree
  history_gapped :: "string list"

record Sampler =
  sampler_model :: RateModel
  guide_path :: "nat \<Rightarrow> bool list option"
  guide_columns :: nat
  sampler_isGap :: "char \<Rightarrow> bool"

text \<open>\<^verbatim>\<open>removeGapsAndTokenize\<close>, and the read of a row of \<^verbatim>\<open>history.gapped\<close>.\<close>

definition removeGapsAndTokenize :: "Sampler \<Rightarrow> string \<Rightarrow> int list" where
  "removeGapsAndTokenize sampler gappedRow =
     map (tokenize (sampler_model sampler)) (filter (\<lambda>c. \<not> sampler_isGap sampler c) gappedRow)"

definition gappedRow :: "History \<Rightarrow> int \<Rightarrow> error + string" where
  "gappedRow history r =
     (if r < 0 \<or> \<not> nat r < length (history_gapped history) then Inl OutOfRange
      else Inr (history_gapped history ! nat r))"

text \<open>
  The constructor of \<^verbatim>\<open>SampleNodeMove\<close>, up to the construction of the envelope and of
  the matrix, whose constructors are not among the sources or end in \<^verbatim>\<open>// WRITE ME\<close>.
  The record holds the members; the distances, positions and token sequences are locals
  of the constructor, and what matters of them here is that they are read: the closest
  leaf of the parent and the row of the parent are read for the chosen node whatever it
  is.
\<close>

record SampleNodeMove =
  move_node :: nat
  move_parent :: int
  leftChild :: nat
  rightChild :: nat

definition SampleNodeMove_new :: "History \<Rightarrow> Sampler \<Rightarrow> nat \<Rightarrow> error + SampleNodeMove" where
  "SampleNodeMove_new history sampler generator =
     (let t = history_tree history
      in case randomInternalNode t generator of
           Inl err \<Rightarrow> Inl err
         | Inr n \<Rightarrow>
             (let p = parentNode t n
              in if nChildren t n \<noteq> 2 then Inl NonBinaryTree
                 else
                   (let l = getChild t n 0; r = getChild t n 1
                    in case closestLeaf t p of
                         Inl err \<Rightarrow> Inl err
                       | Inr parentClosest \<Rightarrow>
                      (case closestLeaf t (int l) of
                         Inl err \<Rightarrow> Inl err
                       | Inr leftClosest \<Rightarrow>
                      (case closestLeaf t (int r) of
                         Inl err \<Rightarrow> Inl err
                       | Inr rightClosest \<Rightarrow>
                      (case guideSeqPos (guide_path sampler) (guide_columns sampler)
                              l (fst leftClosest) of
                         Inl err \<Rightarrow> Inl err
                       | Inr leftChildEnvPos \<Rightarrow>
                      (case guideSeqPos (guide_path sampler) (guide_columns sampler)
                              r (fst rightClosest) of
                         Inl err \<Rightarrow> Inl err
                       | Inr rightChildEnvPos \<Rightarrow>
                      (case gappedRow history (int l) of
                         Inl err \<Rightarrow> Inl err
                       | Inr lRow \<Rightarrow>
                      (case gappedRow history (int r) of
                         Inl err \<Rightarrow> Inl err
                       | Inr rRow \<Rightarrow>
                      (case gappedRow history p of
                         Inl err \<Rightarrow> Inl err
                       | Inr pRow \<Rightarrow>
                           Inr \<lparr>move_node = n, move_parent = p,
                                leftChild = l, rightChild = r\<rparr>))))))))))"

lemma intNodes_set: "set (intNodes t) = {n. n < nodes t \<and> \<not> isLeaf t n}"
  by (auto simp: intNodes_def)

lemma intNodes_distinct: "distinct (intNodes t)"
  by (simp add: intNodes_def)

lemma randomInternalNode_below:
  assumes "j < length (intNodes t)"
  shows "randomInternalNode t j = Inr (intNodes t ! j)"
  using assms by (auto simp: randomInternalNode_def random_element_def)

text \<open>
  What \<open>randomInternalNode\<close> draws from: the node it returns is a node that is not a leaf,
  and every node that is not a leaf, the root among them, is returned for exactly one of
  the indices that the distribution can draw.
\<close>

lemma randomInternalNode_choice:
  shows "(randomInternalNode t generator = Inr n \<longrightarrow> n < nodes t \<and> \<not> isLeaf t n)
       \<and> (n < nodes t \<and> \<not> isLeaf t n \<longrightarrow>
            card {j. j < length (intNodes t) \<and> randomInternalNode t j = Inr n} = 1)"
proof -
  have a: "n < nodes t \<and> \<not> isLeaf t n" if r: "randomInternalNode t generator = Inr n"
  proof -
    from r have "intNodes t \<noteq> []" "n = intNodes t ! (generator mod length (intNodes t))"
      by (auto simp: randomInternalNode_def random_element_def split: if_splits)
    then have "n \<in> set (intNodes t)" by simp
    then show ?thesis by (simp add: intNodes_set)
  qed
  have b: "card {j. j < length (intNodes t) \<and> randomInternalNode t j = Inr n} = 1"
    if "n < nodes t \<and> \<not> isLeaf t n"
  proof -
    from that have "n \<in> set (intNodes t)" by (simp add: intNodes_set)
    then obtain j where j: "j < length (intNodes t)" "intNodes t ! j = n"
      by (auto simp: in_set_conv_nth)
    have "{j. j < length (intNodes t) \<and> randomInternalNode t j = Inr n} = {j}"
    proof (rule set_eqI)
      fix k
      show "k \<in> {j. j < length (intNodes t) \<and> randomInternalNode t j = Inr n} \<longleftrightarrow> k \<in> {j}"
        using j intNodes_distinct [of t]
        by (auto simp: randomInternalNode_below nth_eq_iff_index_eq)
    qed
    then show ?thesis by simp
  qed
  show ?thesis using a b by blast
qed

text \<open>
  A move that the constructor returns is a move of the node drawn, and this node has
  exactly two children and a parent in the tree.
\<close>

lemma SampleNodeMove_new_node:
  assumes "SampleNodeMove_new history sampler generator = Inr m"
  shows "randomInternalNode (history_tree history) generator = Inr (move_node m)
       \<and> nChildren (history_tree history) (move_node m) = 2
       \<and> move_parent m = parentNode (history_tree history) (move_node m)
       \<and> 0 \<le> move_parent m \<and> nat (move_parent m) < nodes (history_tree history)"
  using assms
  by (auto simp: SampleNodeMove_new_def Let_def closestLeaf_def split: sum.splits if_splits)

lemma intNodes_tree3: "intNodes tree3 = [2]"
  by (simp add: intNodes_def upt3 isLeaf_def) (simp add: tree3_def)

text \<open>
  C8 fails on the code. In the tree of two leaves under a root the only node that is not
  a leaf is the root, which has no parent: whatever the generator yields,
  \<open>randomInternalNode\<close> returns the root, a node that the claim excludes, and the
  constructor, which goes on to read the closest leaf and the row of the parent \<open>- 1\<close>,
  does not return a move.
\<close>

theorem SampleNodeMove_new_root:
  "intNodes tree3 = [2] \<and> parentNode tree3 2 = - 1 \<and> nChildren tree3 2 = 2
   \<and> randomInternalNode tree3 generator = Inr 2
   \<and> SampleNodeMove_new \<lparr>history_tree = tree3, history_gapped = rows\<rparr> sampler generator
       = Inl OutOfRange"
proof -
  have r: "randomInternalNode tree3 generator = Inr 2"
    by (simp add: randomInternalNode_def random_element_def intNodes_tree3)
  have c: "nChildren tree3 2 = 2" by (simp add: nChildren_def tree3_def)
  have "closestLeaf tree3 (parentNode tree3 2) = Inl OutOfRange"
    by (simp add: closestLeaf_def)
  then have "SampleNodeMove_new \<lparr>history_tree = tree3, history_gapped = rows\<rparr> sampler generator
             = Inl OutOfRange"
    unfolding SampleNodeMove_new_def Let_def using r c by simp
  then show ?thesis using r c intNodes_tree3 by simp
qed

section \<open>span.cpp: the spanning tree of the alignment graph\<close>

text \<open>
  Modelled from the spec: the members of \<^verbatim>\<open>AlignGraph\<close> are declared in span.h,
  which is not among the sources. \<^verbatim>\<open>minSpanTree\<close> reads the number of sequences, the
  priority queue of every vertex and the paths stored by pair of rows. Section 4.4 of the
  specification orders edges by \<open>lp\<close>, the higher the better: the top of a queue is an edge
  of greatest \<open>lp\<close>. A queue is represented by the list of its edges in the order in which
  \<^verbatim>\<open>top\<close> and \<^verbatim>\<open>pop\<close> yield them (\<^verbatim>\<open>minSpanTree\<close> pushes nothing): \<^verbatim>\<open>top\<close> is
  the head, \<^verbatim>\<open>pop\<close> leaves the tail. A path maps a row to its bits.
\<close>

type_synonym AlignPath = "nat \<Rightarrow> bool list option"

record AlignGraph =
  nSeqs :: nat
  edges :: "Edge list list"
  edgePath :: "(nat \<Rightarrow> AlignPath option) list"

text \<open>
  \<^verbatim>\<open>while (!edges[src].empty() && part.inSameSet (edges[src].top())) edges[src].pop()\<close>
\<close>

fun drop_stale :: "Partition \<Rightarrow> Edge list \<Rightarrow> error + Edge list" where
  "drop_stale p [] = Inr []"
| "drop_stale p (e # q) =
     (case inSameSet p e of
        Inl err \<Rightarrow> Inl err
      | Inr True \<Rightarrow> drop_stale p q
      | Inr False \<Rightarrow> Inr (e # q))"

text \<open>
  The body of the loop over the first set, for the vertex \<open>src\<close>: the queues and the best
  edge so far (\<open>None\<close> while \<^verbatim>\<open>foundBest\<close> is false).
\<close>

definition scan_src ::
  "Partition \<Rightarrow> nat \<Rightarrow> Edge list list \<times> Edge option \<Rightarrow> error + Edge list list \<times> Edge option" where
  "scan_src p src st =
     (case st of (qs, best) \<Rightarrow>
        if \<not> src < length qs then Inl OutOfRange
        else
          (case drop_stale p (qs ! src) of
             Inl err \<Rightarrow> Inl err
           | Inr q \<Rightarrow>
               (case q of
                  [] \<Rightarrow> Inr (qs[src := q], best)
                | tp # rest \<Rightarrow>
                    (case best of
                       None \<Rightarrow> Inr (qs[src := q], Some tp)
                     | Some b \<Rightarrow>
                         if lp b < lp tp then Inr (qs[src := q], Some tp)
                         else Inr (qs[src := q], Some b)))))"

record MstState =
  part :: Partition
  queues :: "Edge list list"
  chosen :: "Edge list"

text \<open>
  One turn of the loop of \<^verbatim>\<open>minSpanTree\<close>: the scan of the first set, the assertion,
  and the merge. \<open>chosen\<close> lists the edges whose paths have been pushed.
\<close>

definition mst_step :: "MstState \<Rightarrow> error + MstState" where
  "mst_step st =
     (case seqSet (part st) of
        [] \<Rightarrow> Inl OutOfRange
      | front # others \<Rightarrow>
          (case foldE (scan_src (part st)) (sorted_list_of_set front) (queues st, None) of
             Inl err \<Rightarrow> Inl err
           | Inr (qs, None) \<Rightarrow> Inl NoValidEdge
           | Inr (qs, Some best) \<Rightarrow>
               (case merge (part st) best of
                  Inl err \<Rightarrow> Inl err
                | Inr p \<Rightarrow> Inr \<lparr>part = p, queues = qs, chosen = chosen st @ [best]\<rparr>)))"

lemma drop_stale_top:
  "drop_stale p q = Inr (e # r) \<Longrightarrow> inSameSet p e = Inr False"
  by (induction q) (auto split: sum.splits bool.splits)

lemma scan_src_best:
  assumes "scan_src p src (qs, best) = Inr (qs', Some b)"
    and "\<And>b0. best = Some b0 \<Longrightarrow> inSameSet p b0 = Inr False"
  shows "inSameSet p b = Inr False"
  using assms
  by (auto simp: scan_src_def dest: drop_stale_top
      split: if_splits sum.splits list.splits option.splits)

lemma scan_fold_best:
  assumes "foldE (scan_src p) srcs (qs, best) = Inr (qs', Some b)"
    and "\<And>b0. best = Some b0 \<Longrightarrow> inSameSet p b0 = Inr False"
  shows "inSameSet p b = Inr False"
  using assms
proof (induction srcs arbitrary: qs best)
  case Nil
  then show ?case by simp
next
  case (Cons src srcs)
  from Cons.prems(1) obtain qs1 best1 where
    s: "scan_src p src (qs, best) = Inr (qs1, best1)"
    and f: "foldE (scan_src p) srcs (qs1, best1) = Inr (qs', Some b)"
    by (auto split: sum.splits)
  have "inSameSet p b1 = Inr False" if "best1 = Some b1" for b1
    using scan_src_best [OF s [unfolded that]] Cons.prems(2) by blast
  then show ?case using Cons.IH [OF f] by blast
qed

lemma merge_nSets:
  assumes "merge p e = Inr p'" "inSameSet p e = Inr False"
  shows "nSets p' = dec_size_t (nSets p)"
  using assms by (auto simp: merge_def Let_def split: if_splits)

lemma mst_step_nSets:
  assumes "mst_step st = Inr st'"
  shows "nSets (part st') = dec_size_t (nSets (part st))"
proof -
  from assms obtain front others qs best where
    fold: "foldE (scan_src (part st)) (sorted_list_of_set front) (queues st, None)
           = Inr (qs, Some best)"
    and m: "merge (part st) best = Inr (part st')"
    by (auto simp: mst_step_def split: list.splits sum.splits option.splits)
  have "inSameSet (part st) best = Inr False"
    using scan_fold_best [OF fold] by simp
  then show ?thesis using merge_nSets [OF m] by simp
qed

function mst_loop :: "MstState \<Rightarrow> error + MstState" where
  "mst_loop st =
     (if nSets (part st) > 1
      then (case mst_step st of Inl err \<Rightarrow> Inl err | Inr st' \<Rightarrow> mst_loop st')
      else Inr st)"
  by pat_completeness auto
termination
proof (relation "measure (\<lambda>st. nSets (part st))")
  show "wf (measure (\<lambda>st. nSets (part st)))" by simp
next
  fix st st'
  assume "1 < nSets (part st)" "mst_step st = Inr st'"
  then show "(st', st) \<in> measure (\<lambda>st. nSets (part st))"
    using mst_step_nSets [of st st'] by (simp add: dec_size_t_def)
qed

declare mst_loop.simps [simp del]

text \<open>
  \<^verbatim>\<open>edgePath[best.row1][best.row2]\<close>: the first index is one of a vector, the second a
  key of a map, which gives an empty path for a key that it does not hold.
\<close>

definition path_of :: "AlignGraph \<Rightarrow> Edge \<Rightarrow> AlignPath" where
  "path_of g e = (case (edgePath g ! row1 e) (row2 e) of None \<Rightarrow> Map.empty | Some path \<Rightarrow> path)"

definition mst_edges :: "AlignGraph \<Rightarrow> error + Edge list" where
  "mst_edges g =
     (case mst_loop \<lparr>part = Partition_new (nSeqs g), queues = edges g, chosen = []\<rparr> of
        Inl err \<Rightarrow> Inl err
      | Inr st \<Rightarrow> Inr (chosen st))"

definition minSpanTree :: "AlignGraph \<Rightarrow> error + AlignPath list" where
  "minSpanTree g =
     (case mst_edges g of Inl err \<Rightarrow> Inl err | Inr es \<Rightarrow> Inr (map (path_of g) es))"

subsection \<open>Spanning trees of a set of edges\<close>

text \<open>
  The pairs of rows that a set of edges joins, in both directions; a set of edges connects
  the vertices below \<open>K\<close> when every two of them are joined by a chain of its edges. A
  spanning tree of the edges \<open>E\<close> on \<open>K\<close> vertices is a set of \<open>K - 1\<close> edges of \<open>E\<close> that
  connects them. Its weight, written \<open>total_lp\<close>, is the sum of the scores of its edges.
\<close>

definition adj :: "Edge set \<Rightarrow> (nat \<times> nat) set" where
  "adj T = (\<lambda>e. (row1 e, row2 e)) ` T \<union> (\<lambda>e. (row2 e, row1 e)) ` T"

definition connects :: "nat \<Rightarrow> Edge set \<Rightarrow> bool" where
  "connects K T = ({..<K} \<times> {..<K} \<subseteq> (adj T)\<^sup>*)"

definition spanning_tree :: "nat \<Rightarrow> Edge set \<Rightarrow> Edge set \<Rightarrow> bool" where
  "spanning_tree K E T = (T \<subseteq> E \<and> finite T \<and> card T + 1 = K \<and> connects K T)"

definition total_lp :: "Edge set \<Rightarrow> real" where
  "total_lp T = sum lp T"

definition crossing :: "nat set \<Rightarrow> Edge \<Rightarrow> bool" where
  "crossing S e = ((row1 e \<in> S) \<noteq> (row2 e \<in> S))"

lemma adj_sym: "sym (adj T)"
  by (auto simp: adj_def sym_def)

lemma adj_star_sym: "(u, v) \<in> (adj T)\<^sup>* \<Longrightarrow> (v, u) \<in> (adj T)\<^sup>*"
  using sym_rtrancl [OF adj_sym [of T]] by (auto simp: sym_def)

lemma adj_mono: "T \<subseteq> T' \<Longrightarrow> adj T \<subseteq> adj T'"
  by (auto simp: adj_def)

lemma adj_star_mono: "T \<subseteq> T' \<Longrightarrow> (adj T)\<^sup>* \<subseteq> (adj T')\<^sup>*"
  by (rule rtrancl_mono) (rule adj_mono)

lemma adj_edge: "e \<in> T \<Longrightarrow> (row1 e, row2 e) \<in> adj T \<and> (row2 e, row1 e) \<in> adj T"
  by (auto simp: adj_def)

lemma adj_cases:
  assumes "(p, q) \<in> adj T"
  obtains e where "e \<in> T" "(row1 e = p \<and> row2 e = q) \<or> (row1 e = q \<and> row2 e = p)"
  using assms by (auto simp: adj_def)

text \<open>A chain that ends outside \<open>S\<close> leaves \<open>S\<close> for the last time by some pair.\<close>

lemma last_crossing:
  assumes "(a, v) \<in> R\<^sup>*" and "v \<notin> S"
  shows "(a \<notin> S \<and> (a, v) \<in> (R \<inter> (- S) \<times> (- S))\<^sup>*)
       \<or> (\<exists>x y. x \<in> S \<and> y \<notin> S \<and> (x, y) \<in> R \<and> (y, v) \<in> (R \<inter> (- S) \<times> (- S))\<^sup>*)"
  using assms(1)
proof (induction rule: converse_rtrancl_induct)
  case base
  then show ?case using assms(2) by simp
next
  case (step a c)
  from step.IH show ?case
  proof
    assume c: "c \<notin> S \<and> (c, v) \<in> (R \<inter> (- S) \<times> (- S))\<^sup>*"
    show ?thesis
    proof (cases "a \<in> S")
      case True
      then show ?thesis using c step.hyps(1) by blast
    next
      case False
      then have "(a, c) \<in> R \<inter> (- S) \<times> (- S)" using c step.hyps(1) by simp
      then have "(a, v) \<in> (R \<inter> (- S) \<times> (- S))\<^sup>*"
        using c by (meson converse_rtrancl_into_rtrancl)
      then show ?thesis using False by simp
    qed
  next
    assume "\<exists>x y. x \<in> S \<and> y \<notin> S \<and> (x, y) \<in> R \<and> (y, v) \<in> (R \<inter> (- S) \<times> (- S))\<^sup>*"
    then show ?thesis by simp
  qed
qed

lemma exchange:
  assumes T: "spanning_tree K E T"
    and F: "F \<subseteq> T"
    and inS: "\<And>e. e \<in> F \<Longrightarrow> row1 e \<in> S \<and> row2 e \<in> S"
    and conS: "\<And>v. v \<in> S \<Longrightarrow> (r, v) \<in> (adj F)\<^sup>*"
    and bE: "b \<in> E" and bK: "row1 b < K" "row2 b < K"
    and bc: "crossing S b"
    and mx: "\<And>e. e \<in> E \<Longrightarrow> crossing S e \<Longrightarrow> lp e \<le> lp b"
  shows "\<exists>T'. spanning_tree K E T' \<and> insert b F \<subseteq> T' \<and> total_lp T \<le> total_lp T'"
proof (cases "b \<in> T")
  case True
  then show ?thesis using T F by (intro exI [of _ T]) simp
next
  case False
  have TE: "T \<subseteq> E" and fin: "finite T" and card: "card T + 1 = K" and con: "connects K T"
    using T by (simp_all add: spanning_tree_def)
  obtain u v where uv: "u \<in> S" "v \<notin> S" "u < K" "v < K"
    "(row1 b = u \<and> row2 b = v) \<or> (row1 b = v \<and> row2 b = u)"
    using bc bK by (auto simp: crossing_def)
  have "(u, v) \<in> (adj T)\<^sup>*" using con uv by (auto simp: connects_def)
  from last_crossing [OF this uv(2)] uv(1)
  obtain x y where xy: "x \<in> S" "y \<notin> S" "(x, y) \<in> adj T"
    "(y, v) \<in> (adj T \<inter> (- S) \<times> (- S))\<^sup>*"
    by blast
  from xy(3) obtain f where f: "f \<in> T"
    "(row1 f = x \<and> row2 f = y) \<or> (row1 f = y \<and> row2 f = x)"
    by (rule adj_cases)
  have fc: "crossing S f" using f(2) xy by (auto simp: crossing_def)
  have fF: "f \<notin> F" using fc inS by (auto simp: crossing_def)
  let ?T = "insert b (T - {f})"
  have FT: "F \<subseteq> T - {f}" using F fF by auto
  have sub: "(adj (T - {f}))\<^sup>* \<subseteq> (adj ?T)\<^sup>*"
    by (rule adj_star_mono) auto
  have xu: "(x, u) \<in> (adj ?T)\<^sup>*"
  proof -
    have "(r, x) \<in> (adj F)\<^sup>*" "(r, u) \<in> (adj F)\<^sup>*" using conS xy(1) uv(1) by auto
    then have "(x, u) \<in> (adj F)\<^sup>*" using adj_star_sym by (meson rtrancl_trans)
    then show ?thesis using adj_star_mono [OF FT] sub by blast
  qed
  have uv': "(u, v) \<in> (adj ?T)\<^sup>*"
  proof -
    have "(u, v) \<in> adj ?T" using uv(5) adj_edge [of b ?T] by auto
    then show ?thesis by blast
  qed
  have vy: "(v, y) \<in> (adj ?T)\<^sup>*"
  proof -
    have "adj T \<inter> (- S) \<times> (- S) \<subseteq> adj (T - {f})"
    proof
      fix pq assume pq: "pq \<in> adj T \<inter> (- S) \<times> (- S)"
      obtain p q where [simp]: "pq = (p, q)" by (cases pq)
      from pq have "(p, q) \<in> adj T" "p \<notin> S" "q \<notin> S" by auto
      then obtain e where e: "e \<in> T" "(row1 e = p \<and> row2 e = q) \<or> (row1 e = q \<and> row2 e = p)"
        by (auto elim: adj_cases)
      then have "e \<noteq> f" using fc \<open>p \<notin> S\<close> \<open>q \<notin> S\<close> by (auto simp: crossing_def)
      then have "e \<in> T - {f}" using e(1) by simp
      then show "pq \<in> adj (T - {f})" using e(2) adj_edge [of e "T - {f}"] by auto
    qed
    then have "(y, v) \<in> (adj (T - {f}))\<^sup>*" using xy(4) rtrancl_mono by blast
    then have "(y, v) \<in> (adj ?T)\<^sup>*" using sub by blast
    then show ?thesis by (rule adj_star_sym)
  qed
  have xy': "(x, y) \<in> (adj ?T)\<^sup>*" using xu uv' vy by (meson rtrancl_trans)
  have step: "adj T \<subseteq> (adj ?T)\<^sup>*"
  proof
    fix pq assume pq: "pq \<in> adj T"
    obtain p q where [simp]: "pq = (p, q)" by (cases pq)
    from pq obtain e where e: "e \<in> T" "(row1 e = p \<and> row2 e = q) \<or> (row1 e = q \<and> row2 e = p)"
      by (auto elim: adj_cases)
    show "pq \<in> (adj ?T)\<^sup>*"
    proof (cases "e = f")
      case True
      then have "(p = x \<and> q = y) \<or> (p = y \<and> q = x)" using e(2) f(2) by auto
      then show ?thesis using xy' adj_star_sym [OF xy'] by auto
    next
      case False
      then have "e \<in> ?T" using e(1) by simp
      then have "(p, q) \<in> adj ?T" using e(2) adj_edge [of e ?T] by auto
      then show ?thesis by auto
    qed
  qed
  have "(adj T)\<^sup>* \<subseteq> (adj ?T)\<^sup>*"
    using step by (rule rtrancl_subset_rtrancl)
  then have con': "connects K ?T" using con by (auto simp: connects_def)
  have card': "card ?T = card T"
  proof -
    have "card ?T = Suc (card (T - {f}))" using fin False by simp
    also have "\<dots> = card T" using fin f(1) by (rule card_Suc_Diff1)
    finally show ?thesis .
  qed
  have w: "total_lp ?T = total_lp T - lp f + lp b"
  proof -
    have "total_lp ?T = lp b + sum lp (T - {f})"
      unfolding total_lp_def using fin False by (subst sum.insert) auto
    also have "sum lp (T - {f}) = sum lp T - lp f"
      using fin f(1) by (simp add: sum_diff1)
    finally show ?thesis by (simp add: total_lp_def)
  qed
  have "lp f \<le> lp b" using mx [of f] fc f(1) TE by auto
  then have "total_lp T \<le> total_lp ?T" using w by simp
  moreover have "spanning_tree K E ?T"
    using TE bE fin card card' con' by (auto simp: spanning_tree_def)
  moreover have "insert b F \<subseteq> ?T" using FT by auto
  ultimately show ?thesis by blast
qed

lemma spanning_tree_maximal:
  assumes F: "spanning_tree K E F"
    and ex: "\<And>T. spanning_tree K E T \<Longrightarrow>
               \<exists>T'. spanning_tree K E T' \<and> F \<subseteq> T' \<and> total_lp T \<le> total_lp T'"
    and T: "spanning_tree K E T"
  shows "total_lp T \<le> total_lp F"
proof -
  obtain T' where T': "spanning_tree K E T'" "F \<subseteq> T'" "total_lp T \<le> total_lp T'"
    using ex [OF T] by blast
  have "card F = card T'" using F T' by (simp add: spanning_tree_def)
  moreover have "finite T'" using T' by (simp add: spanning_tree_def)
  ultimately have "F = T'" using T'(2) by (simp add: card_subset_eq)
  then show ?thesis using T'(3) by simp
qed

subsection \<open>The partition during the search\<close>

text \<open>
  The first set is the set of vertices labelled 0. While \<^verbatim>\<open>minSpanTree\<close> runs, every
  vertex is labelled 0 or by itself: every other set is a singleton or has been emptied.
\<close>

definition comp0 :: "nat \<Rightarrow> Partition \<Rightarrow> nat set" where
  "comp0 K p = {v. v < K \<and> seqSetIdx p ! v = 0}"

definition part_inv :: "nat \<Rightarrow> Partition \<Rightarrow> bool" where
  "part_inv K p =
     (length (seqSetIdx p) = K \<and> length (seqSet p) = K
      \<and> (\<forall>v<K. seqSetIdx p ! v = 0 \<or> seqSetIdx p ! v = v)
      \<and> (\<forall>i<K. seqSet p ! i = {v. v < K \<and> seqSetIdx p ! v = i})
      \<and> nSets p + card (comp0 K p) = K + 1)"

lemma comp0_finite [simp]: "finite (comp0 K p)"
  by (simp add: comp0_def)

lemma comp0_below: "v \<in> comp0 K p \<Longrightarrow> v < K"
  by (simp add: comp0_def)

lemma part_inv_new: "0 < K \<Longrightarrow> part_inv K (Partition_new K)"
proof -
  assume K: "0 < K"
  have c: "comp0 K (Partition_new K) = {0}"
    using K by (auto simp: comp0_def Partition_new_eq)
  show ?thesis
    unfolding part_inv_def c
  proof (intro conjI allI impI)
    show "length (seqSetIdx (Partition_new K)) = K" by (simp add: Partition_new_eq)
    show "length (seqSet (Partition_new K)) = K" by (simp add: Partition_new_eq)
    show "seqSetIdx (Partition_new K) ! v = 0 \<or> seqSetIdx (Partition_new K) ! v = v"
      if "v < K" for v using that by (simp add: Partition_new_eq)
    show "seqSet (Partition_new K) ! i = {v. v < K \<and> seqSetIdx (Partition_new K) ! v = i}"
      if "i < K" for i
    proof -
      have "{v. v < K \<and> [0..<K] ! v = i} = {i}" using that by auto
      then show ?thesis using that by (simp add: Partition_new_eq)
    qed
    show "nSets (Partition_new K) + card {0::nat} = K + 1" by (simp add: Partition_new_eq)
  qed
qed

lemma inSameSet_comp0:
  assumes "part_inv K p" "row1 e < K" "row2 e < K" "row1 e \<noteq> row2 e"
  shows "inSameSet p e = Inr (row1 e \<in> comp0 K p \<and> row2 e \<in> comp0 K p)"
proof -
  have l: "length (seqSetIdx p) = K"
    and i: "\<And>v. v < K \<Longrightarrow> seqSetIdx p ! v = 0 \<or> seqSetIdx p ! v = v"
    using assms(1) by (auto simp: part_inv_def)
  have eq: "inSameSet p e = Inr (seqSetIdx p ! row1 e = seqSetIdx p ! row2 e)"
    using assms(2,3) l by (simp add: inSameSet_def)
  have m: "row1 e \<in> comp0 K p \<longleftrightarrow> seqSetIdx p ! row1 e = 0"
    "row2 e \<in> comp0 K p \<longleftrightarrow> seqSetIdx p ! row2 e = 0"
    using assms(2,3) by (simp_all add: comp0_def)
  show ?thesis
  proof (cases "seqSetIdx p ! row1 e = 0")
    case a: True
    show ?thesis
    proof (cases "seqSetIdx p ! row2 e = 0")
      case True
      with a show ?thesis unfolding eq m by simp
    next
      case False
      with a show ?thesis unfolding eq m by simp
    qed
  next
    case a: False
    then have a': "seqSetIdx p ! row1 e = row1 e" using i [OF assms(2)] by simp
    show ?thesis
    proof (cases "seqSetIdx p ! row2 e = 0")
      case True
      with a show ?thesis unfolding eq m by simp
    next
      case False
      then have "seqSetIdx p ! row2 e = row2 e" using i [OF assms(3)] by simp
      with a a' False show ?thesis unfolding eq m using assms(4) by simp
    qed
  qed
qed

lemma merge_crossing:
  assumes inv: "part_inv K p"
    and u: "u \<in> comp0 K p" and v: "v < K" "v \<notin> comp0 K p"
    and e: "(row1 e = u \<and> row2 e = v) \<or> (row1 e = v \<and> row2 e = u)"
  shows "\<exists>p'. merge p e = Inr p' \<and> part_inv K p' \<and> comp0 K p' = insert v (comp0 K p)"
proof -
  have l: "length (seqSetIdx p) = K" and l2: "length (seqSet p) = K"
    and i: "\<And>x. x < K \<Longrightarrow> seqSetIdx p ! x = 0 \<or> seqSetIdx p ! x = x"
    and s: "\<And>i. i < K \<Longrightarrow> seqSet p ! i = {x. x < K \<and> seqSetIdx p ! x = i}"
    and n: "nSets p + card (comp0 K p) = K + 1"
    using inv by (auto simp: part_inv_def)
  have uK: "u < K" and iu: "seqSetIdx p ! u = 0" using u by (auto simp: comp0_def)
  have iv: "seqSetIdx p ! v = v" and v0: "v \<noteq> 0" using v i [of v] by (auto simp: comp0_def)
  have ne: "u \<noteq> v" using u v by auto
  have same: "inSameSet p e = Inr False"
    using e uK v l iu iv v0 by (auto simp: inSameSet_def)
  have set0: "seqSet p ! 0 = comp0 K p" using s [of 0] uK by (auto simp: comp0_def)
  have setv: "seqSet p ! v = {v}"
  proof -
    have "x = v" if "x < K" "seqSetIdx p ! x = v" for x using i [OF that(1)] that(2) v0 by auto
    then show ?thesis using s [OF v(1)] iv v(1) by auto
  qed
  have card: "card (comp0 K p) \<le> K"
  proof -
    have "comp0 K p \<subseteq> {..<K}" by (auto simp: comp0_def)
    then have "card (comp0 K p) \<le> card {..<K}" by (intro card_mono) auto
    then show ?thesis by simp
  qed
  then have npos: "0 < nSets p" using n by linarith
  let ?p = "\<lparr>seqSetIdx = relabel {v} 0 (seqSetIdx p),
             seqSet = ((seqSet p)[0 := comp0 K p \<union> {v}])[v := {}],
             nSets = nSets p - 1\<rparr>"
  have m: "merge p e = Inr ?p"
    using e same iu iv v0 l l2 v(1) uK set0 setv npos
    by (auto simp: merge_def Let_def dec_size_t_def)
  have idx: "seqSetIdx ?p ! x = (if x = v then 0 else seqSetIdx p ! x)" if "x < K" for x
    using that l by (simp add: relabel_nth)
  have c: "comp0 K ?p = insert v (comp0 K p)"
    using v(1) idx unfolding comp0_def by (auto split: if_splits)
  have "part_inv K ?p"
    unfolding part_inv_def
  proof (intro conjI allI impI)
    show "length (seqSetIdx ?p) = K" using l by simp
    show "length (seqSet ?p) = K" using l2 by simp
    show "seqSetIdx ?p ! x = 0 \<or> seqSetIdx ?p ! x = x" if "x < K" for x
      using idx [OF that] i [OF that] by auto
    show "seqSet ?p ! j = {x. x < K \<and> seqSetIdx ?p ! x = j}" if j: "j < K" for j
    proof (cases "j = v")
      case True
      have "{x. x < K \<and> seqSetIdx ?p ! x = v} = {}"
      proof -
        have "seqSetIdx ?p ! x \<noteq> v" if "x < K" for x
          using idx [OF that] i [OF that] v0 by auto
        then show ?thesis by auto
      qed
      then show ?thesis using True l2 v(1) by simp
    next
      case False
      show ?thesis
      proof (cases "j = 0")
        case True
        have "{x. x < K \<and> seqSetIdx ?p ! x = 0} = comp0 K ?p" by (simp add: comp0_def)
        then show ?thesis using True False l2 uK c by auto
      next
        case j0: False
        have "{x. x < K \<and> seqSetIdx ?p ! x = j} = {x. x < K \<and> seqSetIdx p ! x = j}"
          using idx iv False j0 by auto
        then show ?thesis using False j0 s [OF j] by simp
      qed
    qed
    show "nSets ?p + card (comp0 K ?p) = K + 1"
      using n npos c v(2) by simp
  qed
  then show ?thesis using m c by blast
qed

subsection \<open>The scan of the first set\<close>

text \<open>
  What the scan does with the best edge so far when the cleaned queue of a vertex is \<open>q\<close>.
\<close>

fun pick :: "Edge option \<Rightarrow> Edge list \<Rightarrow> Edge option" where
  "pick best [] = best"
| "pick None (t # r) = Some t"
| "pick (Some b) (t # r) = (if lp b < lp t then Some t else Some b)"

lemma drop_stale_dropWhile:
  "(\<And>e. e \<in> set q \<Longrightarrow> inSameSet p e = Inr (P e)) \<Longrightarrow> drop_stale p q = Inr (dropWhile P q)"
  by (induction q) simp_all

lemma scan_src_eq:
  assumes "s < length qs" and "\<And>e. e \<in> set (qs ! s) \<Longrightarrow> inSameSet p e = Inr (P e)"
  shows "scan_src p s (qs, best)
         = Inr (qs[s := dropWhile P (qs ! s)], pick best (dropWhile P (qs ! s)))"
proof -
  have d: "drop_stale p (qs ! s) = Inr (dropWhile P (qs ! s))"
    using assms(2) by (rule drop_stale_dropWhile)
  have "scan_src p s (qs, best) = Inr (qs[s := D], pick best D)"
    if "drop_stale p (qs ! s) = Inr D" for D
    using that assms(1) by (cases D; cases best) (simp_all add: scan_src_def)
  then show ?thesis using d by blast
qed

definition clean :: "(Edge \<Rightarrow> bool) \<Rightarrow> nat list \<Rightarrow> Edge list list \<Rightarrow> Edge list list" where
  "clean P srcs qs = map (\<lambda>v. if v \<in> set srcs then dropWhile P (qs ! v) else qs ! v) [0..<length qs]"

lemma clean_Nil: "clean P [] qs = qs"
  by (simp add: clean_def map_nth)

lemma clean_Cons:
  assumes "s < length qs" "s \<notin> set srcs"
  shows "clean P srcs (qs[s := dropWhile P (qs ! s)]) = clean P (s # srcs) qs"
  using assms by (auto simp: clean_def nth_list_update)

lemma scan_fold_eq:
  assumes "distinct srcs" and "\<And>s. s \<in> set srcs \<Longrightarrow> s < length qs"
    and "\<And>s e. s \<in> set srcs \<Longrightarrow> e \<in> set (qs ! s) \<Longrightarrow> inSameSet p e = Inr (P e)"
  shows "foldE (scan_src p) srcs (qs, best)
         = Inr (clean P srcs qs, fold (\<lambda>s b. pick b (dropWhile P (qs ! s))) srcs best)"
  using assms
proof (induction srcs arbitrary: qs best)
  case Nil
  then show ?case by (simp add: clean_Nil)
next
  case (Cons s srcs)
  let ?qs = "qs[s := dropWhile P (qs ! s)]"
  have s: "s < length qs" "s \<notin> set srcs" using Cons.prems(1,2) by auto
  have step: "scan_src p s (qs, best) = Inr (?qs, pick best (dropWhile P (qs ! s)))"
    using Cons.prems(3) s(1) by (intro scan_src_eq) auto
  have same: "?qs ! s' = qs ! s'" if "s' \<in> set srcs" for s'
  proof -
    have "s \<noteq> s'" using that s(2) by blast
    then show ?thesis by simp
  qed
  have ih: "foldE (scan_src p) srcs (?qs, pick best (dropWhile P (qs ! s)))
         = Inr (clean P srcs ?qs,
                fold (\<lambda>s b. pick b (dropWhile P (?qs ! s))) srcs (pick best (dropWhile P (qs ! s))))"
  proof (rule Cons.IH)
    show "distinct srcs" using Cons.prems(1) by simp
    show "s' < length ?qs" if "s' \<in> set srcs" for s' using Cons.prems(2) that by simp
    show "inSameSet p e = Inr (P e)" if "s' \<in> set srcs" "e \<in> set (?qs ! s')" for s' e
      using Cons.prems(3) [of s' e] that same by simp
  qed
  have f: "fold (\<lambda>s b. pick b (dropWhile P (?qs ! s))) srcs b0
         = fold (\<lambda>s b. pick b (dropWhile P (qs ! s))) srcs b0" for b0
    by (rule fold_cong) (simp_all add: same)
  show ?case using step ih clean_Cons [OF s] by (simp add: f)
qed

lemma pick_fold_None:
  "fold (\<lambda>s b. pick b (D s)) srcs best = None \<longleftrightarrow> best = None \<and> (\<forall>s\<in>set srcs. D s = [])"
proof (induction srcs arbitrary: best)
  case Nil
  then show ?case by simp
next
  case (Cons s srcs)
  have "pick best (D s) = None \<longleftrightarrow> best = None \<and> D s = []"
    by (cases best; cases "D s") simp_all
  then show ?case using Cons.IH [of "pick best (D s)"] by auto
qed

lemma pick_mono: "best = Some b0 \<Longrightarrow> \<exists>b1. pick best q = Some b1 \<and> lp b0 \<le> lp b1"
  by (cases q) auto

lemma pick_top: "q = t # r \<Longrightarrow> \<exists>b1. pick best q = Some b1 \<and> lp t \<le> lp b1"
  by (cases best) auto

lemma pick_from: "pick best q = Some b \<Longrightarrow> best = Some b \<or> (\<exists>r. q = b # r)"
  by (cases best; cases q) (auto split: if_splits)

lemma pick_fold_Some:
  assumes "fold (\<lambda>s b. pick b (D s)) srcs best = Some b"
  shows "(best = Some b \<or> (\<exists>s\<in>set srcs. \<exists>r. D s = b # r))
       \<and> (\<forall>s\<in>set srcs. \<forall>t r. D s = t # r \<longrightarrow> lp t \<le> lp b)
       \<and> (\<forall>b0. best = Some b0 \<longrightarrow> lp b0 \<le> lp b)"
  using assms
proof (induction srcs arbitrary: best)
  case Nil
  then show ?case by simp
next
  case (Cons s srcs)
  let ?b = "pick best (D s)"
  have f: "fold (\<lambda>s b. pick b (D s)) srcs ?b = Some b" using Cons.prems by simp
  note ih = Cons.IH [OF f]
  have 1: "best = Some b \<or> (\<exists>s'\<in>set (s # srcs). \<exists>r. D s' = b # r)"
    using ih pick_from [of best "D s" b] by auto
  have 2: "lp t \<le> lp b" if "s' \<in> set (s # srcs)" "D s' = t # r" for s' t r
  proof (cases "s' = s")
    case True
    then have "D s = t # r" using that by simp
    then obtain b1 where b1: "?b = Some b1" "lp t \<le> lp b1"
      using pick_top [of "D s" t r best] by blast
    have "lp b1 \<le> lp b" using ih b1(1) by blast
    then show ?thesis using b1(2) by linarith
  next
    case False
    then show ?thesis using ih that by auto
  qed
  have 3: "lp b0 \<le> lp b" if h: "best = Some b0" for b0
  proof -
    obtain b1 where b1: "?b = Some b1" "lp b0 \<le> lp b1"
      using pick_mono [OF h, of "D s"] by blast
    have "lp b1 \<le> lp b" using ih b1(1) by blast
    then show ?thesis using b1(2) by linarith
  qed
  show ?case using 1 2 3 by blast
qed

subsection \<open>The invariant of the loop\<close>

text \<open>
  The edges of the graph are the edges in its queues. The constructor builds a graph in
  which every edge joins two different rows below the number of sequences, the smaller
  one first, and lies in the queues of both; a queue yields its edges by decreasing score.
\<close>

definition edge_set :: "AlignGraph \<Rightarrow> Edge set" where
  "edge_set g = \<Union> (set ` set (edges g))"

definition graph_ok :: "AlignGraph \<Rightarrow> bool" where
  "graph_ok g =
     (length (edges g) = nSeqs g
      \<and> (\<forall>v<nSeqs g.
            sorted_wrt (\<lambda>a b. lp b \<le> lp a) (edges g ! v)
            \<and> (\<forall>e\<in>set (edges g ! v).
                  row1 e < row2 e \<and> row2 e < nSeqs g \<and> (v = row1 e \<or> v = row2 e)
                  \<and> e \<in> set (edges g ! row1 e) \<and> e \<in> set (edges g ! row2 e))))"

text \<open>
  The queues during the search: they hold edges of the graph, still by decreasing score,
  and an edge of the graph that has left a queue has both ends in the first set \<open>S\<close>.
\<close>

definition queue_inv :: "AlignGraph \<Rightarrow> nat set \<Rightarrow> Edge list list \<Rightarrow> bool" where
  "queue_inv g S qs =
     (length qs = nSeqs g
      \<and> (\<forall>v<nSeqs g.
            set (qs ! v) \<subseteq> set (edges g ! v)
            \<and> sorted_wrt (\<lambda>a b. lp b \<le> lp a) (qs ! v)
            \<and> (\<forall>e\<in>set (edges g ! v). e \<in> set (qs ! v) \<or> (row1 e \<in> S \<and> row2 e \<in> S))))"

text \<open>
  The edges chosen so far: different edges of the graph inside \<open>S\<close> that join every vertex
  of \<open>S\<close> to vertex 0, one less than the vertices of \<open>S\<close>, and part of a spanning tree at
  least as heavy as any given one.
\<close>

definition tree_inv :: "nat \<Rightarrow> Edge set \<Rightarrow> nat set \<Rightarrow> Edge list \<Rightarrow> bool" where
  "tree_inv K E S es =
     (distinct es \<and> set es \<subseteq> E
      \<and> (\<forall>e\<in>set es. row1 e \<in> S \<and> row2 e \<in> S)
      \<and> (\<forall>v\<in>S. (0, v) \<in> (adj (set es))\<^sup>*)
      \<and> card S = length es + 1
      \<and> (\<forall>T. spanning_tree K E T \<longrightarrow>
            (\<exists>T'. spanning_tree K E T' \<and> set es \<subseteq> T' \<and> total_lp T \<le> total_lp T')))"

definition mst_inv :: "AlignGraph \<Rightarrow> MstState \<Rightarrow> bool" where
  "mst_inv g st =
     (part_inv (nSeqs g) (part st)
      \<and> queue_inv g (comp0 (nSeqs g) (part st)) (queues st)
      \<and> tree_inv (nSeqs g) (edge_set g) (comp0 (nSeqs g) (part st)) (chosen st))"

lemma dropWhile_keeps: "x \<in> set q \<Longrightarrow> \<not> P x \<Longrightarrow> x \<in> set (dropWhile P q)"
  by (induction q) auto

lemma dropWhile_dropped: "x \<in> set q \<Longrightarrow> x \<in> set (dropWhile P q) \<or> P x"
  by (induction q) auto

lemma sorted_wrt_dropWhile: "sorted_wrt R q \<Longrightarrow> sorted_wrt R (dropWhile P q)"
  by (induction q) auto

lemma clean_nth:
  "v < length qs \<Longrightarrow> clean P srcs qs ! v = (if v \<in> set srcs then dropWhile P (qs ! v) else qs ! v)"
  by (simp add: clean_def)

lemma clean_length [simp]: "length (clean P srcs qs) = length qs"
  by (simp add: clean_def)

lemma queue_inv_clean:
  assumes q: "queue_inv g S qs" and S: "S \<subseteq> S'"
  shows "queue_inv g S' (clean (\<lambda>e. row1 e \<in> S \<and> row2 e \<in> S) srcs qs)"
  unfolding queue_inv_def
proof (intro conjI allI impI)
  let ?P = "\<lambda>e. row1 e \<in> S \<and> row2 e \<in> S"
  have len: "length qs = nSeqs g" using q by (simp add: queue_inv_def)
  show "length (clean ?P srcs qs) = nSeqs g" using len by simp
  fix v assume v: "v < nSeqs g"
  have sub: "set (qs ! v) \<subseteq> set (edges g ! v)"
    and srt: "sorted_wrt (\<lambda>a b. lp b \<le> lp a) (qs ! v)"
    and old: "\<And>e. e \<in> set (edges g ! v) \<Longrightarrow> e \<in> set (qs ! v) \<or> ?P e"
    using q v by (auto simp: queue_inv_def)
  have nth: "clean ?P srcs qs ! v = (if v \<in> set srcs then dropWhile ?P (qs ! v) else qs ! v)"
    using v len by (simp add: clean_nth)
  show "set (clean ?P srcs qs ! v) \<subseteq> set (edges g ! v)"
  proof (cases "v \<in> set srcs")
    case True
    have "set (dropWhile ?P (qs ! v)) \<subseteq> set (qs ! v)" by (auto dest: set_dropWhileD)
    then show ?thesis unfolding nth using True sub by auto
  next
    case False
    then show ?thesis unfolding nth using sub by simp
  qed
  show "sorted_wrt (\<lambda>a b. lp b \<le> lp a) (clean ?P srcs qs ! v)"
    unfolding nth using srt by (simp add: sorted_wrt_dropWhile)
  show "\<forall>e\<in>set (edges g ! v). e \<in> set (clean ?P srcs qs ! v) \<or> (row1 e \<in> S' \<and> row2 e \<in> S')"
  proof
    fix e assume e: "e \<in> set (edges g ! v)"
    show "e \<in> set (clean ?P srcs qs ! v) \<or> (row1 e \<in> S' \<and> row2 e \<in> S')"
    proof (cases "?P e")
      case True
      then show ?thesis using S by blast
    next
      case False
      then have "e \<in> set (qs ! v)" using old [OF e] by blast
      then have "e \<in> set (clean ?P srcs qs ! v)"
        unfolding nth using False by (simp add: dropWhile_keeps)
      then show ?thesis by simp
    qed
  qed
qed

lemma tree_inv_step:
  assumes t: "tree_inv K E S es" and fin: "finite S"
    and bE: "b \<in> E" and u: "u \<in> S" "u < K" and v: "v \<notin> S" "v < K"
    and ends: "(row1 b = u \<and> row2 b = v) \<or> (row1 b = v \<and> row2 b = u)"
    and mx: "\<And>e. e \<in> E \<Longrightarrow> crossing S e \<Longrightarrow> lp e \<le> lp b"
  shows "tree_inv K E (insert v S) (es @ [b])"
  unfolding tree_inv_def
proof (intro conjI ballI allI impI)
  have d: "distinct es" and sub: "set es \<subseteq> E"
    and inS: "\<And>e. e \<in> set es \<Longrightarrow> row1 e \<in> S \<and> row2 e \<in> S"
    and con: "\<And>x. x \<in> S \<Longrightarrow> (0, x) \<in> (adj (set es))\<^sup>*"
    and card: "card S = length es + 1"
    and opt: "\<And>T. spanning_tree K E T \<Longrightarrow>
               \<exists>T'. spanning_tree K E T' \<and> set es \<subseteq> T' \<and> total_lp T \<le> total_lp T'"
    using t by (auto simp: tree_inv_def)
  have bc: "crossing S b" using ends u v by (auto simp: crossing_def)
  have bn: "b \<notin> set es" using inS bc by (auto simp: crossing_def)
  show "distinct (es @ [b])" using d bn by simp
  show "set (es @ [b]) \<subseteq> E" using sub bE by simp
  show "row1 e \<in> insert v S" "row2 e \<in> insert v S" if "e \<in> set (es @ [b])" for e
    using that inS ends u by auto
  have mono: "(adj (set es))\<^sup>* \<subseteq> (adj (set (es @ [b])))\<^sup>*"
    by (rule adj_star_mono) auto
  show "(0, x) \<in> (adj (set (es @ [b])))\<^sup>*" if "x \<in> insert v S" for x
  proof (cases "x \<in> S")
    case True
    then show ?thesis using con mono by blast
  next
    case False
    then have x: "x = v" using that by simp
    have "(0, u) \<in> (adj (set (es @ [b])))\<^sup>*" using con [OF u(1)] mono by blast
    moreover have "(u, v) \<in> adj (set (es @ [b]))"
      using ends adj_edge [of b "set (es @ [b])"] by auto
    ultimately show ?thesis unfolding x by (rule rtrancl_into_rtrancl)
  qed
  show "card (insert v S) = length (es @ [b]) + 1" using card fin v(1) by simp
  show "\<exists>T'. spanning_tree K E T' \<and> set (es @ [b]) \<subseteq> T' \<and> total_lp T \<le> total_lp T'"
    if T: "spanning_tree K E T" for T
  proof -
    obtain T1 where T1: "spanning_tree K E T1" "set es \<subseteq> T1" "total_lp T \<le> total_lp T1"
      using opt [OF T] by blast
    have bK: "row1 b < K" "row2 b < K" using ends u(2) v(2) by auto
    obtain T2 where T2: "spanning_tree K E T2" "insert b (set es) \<subseteq> T2" "total_lp T1 \<le> total_lp T2"
      using exchange [OF T1(1,2) inS con bE bK bc mx] by blast
    show ?thesis using T2 T1(3) by (intro exI [of _ T2]) auto
  qed
qed

lemma edge_set_queue:
  assumes ok: "graph_ok g" and e: "e \<in> edge_set g"
  shows "row1 e < row2 e" "row2 e < nSeqs g"
    "e \<in> set (edges g ! row1 e)" "e \<in> set (edges g ! row2 e)"
proof -
  from e obtain q where "q \<in> set (edges g)" "e \<in> set q" by (auto simp: edge_set_def)
  then obtain v where v: "v < length (edges g)" "e \<in> set (edges g ! v)"
    by (auto simp: in_set_conv_nth)
  then have "v < nSeqs g" using ok by (simp add: graph_ok_def)
  then have "row1 e < row2 e \<and> row2 e < nSeqs g \<and> e \<in> set (edges g ! row1 e)
             \<and> e \<in> set (edges g ! row2 e)"
    using ok v(2) unfolding graph_ok_def by blast
  then show "row1 e < row2 e" "row2 e < nSeqs g"
    "e \<in> set (edges g ! row1 e)" "e \<in> set (edges g ! row2 e)" by simp_all
qed

lemma queue_edge:
  assumes ok: "graph_ok g" and v: "v < nSeqs g" and e: "e \<in> set (edges g ! v)"
  shows "e \<in> edge_set g" "row1 e < row2 e" "row2 e < nSeqs g" "v = row1 e \<or> v = row2 e"
proof -
  have "edges g ! v \<in> set (edges g)" using ok v by (simp add: graph_ok_def)
  then show "e \<in> edge_set g" using e by (auto simp: edge_set_def)
  have "row1 e < row2 e \<and> row2 e < nSeqs g \<and> (v = row1 e \<or> v = row2 e)"
    using ok v e unfolding graph_ok_def by blast
  then show "row1 e < row2 e" "row2 e < nSeqs g" "v = row1 e \<or> v = row2 e" by simp_all
qed

lemma mst_step_inv:
  assumes ok: "graph_ok g" and con: "connects (nSeqs g) (edge_set g)"
    and inv: "mst_inv g st" and n: "1 < nSets (part st)"
  shows "\<exists>st'. mst_step st = Inr st' \<and> mst_inv g st'"
proof -
  let ?K = "nSeqs g" and ?p = "part st" and ?qs = "queues st" and ?es = "chosen st"
  let ?E = "edge_set g"
  let ?S = "comp0 ?K ?p"
  let ?P = "\<lambda>e. row1 e \<in> ?S \<and> row2 e \<in> ?S"
  let ?D = "\<lambda>s. dropWhile ?P (?qs ! s)"
  have pinv: "part_inv ?K ?p" and qinv: "queue_inv g ?S ?qs" and tinv: "tree_inv ?K ?E ?S ?es"
    using inv by (simp_all add: mst_inv_def)
  have lenq: "length ?qs = ?K"
    and qsub: "\<And>v. v < ?K \<Longrightarrow> set (?qs ! v) \<subseteq> set (edges g ! v)"
    and qsrt: "\<And>v. v < ?K \<Longrightarrow> sorted_wrt (\<lambda>a b. lp b \<le> lp a) (?qs ! v)"
    and qold: "\<And>v e. v < ?K \<Longrightarrow> e \<in> set (edges g ! v) \<Longrightarrow> e \<in> set (?qs ! v) \<or> ?P e"
    using qinv unfolding queue_inv_def by blast+
  have lens: "length (seqSet ?p) = ?K"
    and sets: "\<And>i. i < ?K \<Longrightarrow> seqSet ?p ! i = {v. v < ?K \<and> seqSetIdx ?p ! v = i}"
    and nsets: "nSets ?p + card ?S = ?K + 1"
    using pinv unfolding part_inv_def by blast+
  have cardS: "card ?S = length ?es + 1"
    and con0: "\<And>x. x \<in> ?S \<Longrightarrow> (0, x) \<in> (adj (set ?es))\<^sup>*"
    using tinv unfolding tree_inv_def by blast+
  have Kpos: "0 < ?K" using nsets n cardS by linarith
  have S0: "0 \<in> ?S"
  proof -
    have "?S \<noteq> {}" using cardS by auto
    then obtain x where x: "x \<in> ?S" by blast
    then have "x < ?K" "seqSetIdx ?p ! x = 0" by (auto simp: comp0_def)
    have "seqSetIdx ?p ! 0 = 0 \<or> seqSetIdx ?p ! 0 = 0"
      using pinv Kpos unfolding part_inv_def by blast
    then show ?thesis using Kpos by (simp add: comp0_def)
  qed
  text \<open>The scan.\<close>
  obtain front others where front: "seqSet ?p = front # others"
    using lens Kpos by (cases "seqSet ?p") auto
  have "front = seqSet ?p ! 0" using front by simp
  then have frontS: "front = ?S" using sets [OF Kpos] by (simp add: comp0_def)
  let ?srcs = "sorted_list_of_set ?S"
  have srcs: "set ?srcs = ?S" "distinct ?srcs" by simp_all
  have same: "inSameSet ?p e = Inr (?P e)" if "s \<in> set ?srcs" "e \<in> set (?qs ! s)" for s e
  proof -
    have s: "s < ?K" using that(1) srcs comp0_below by blast
    then have "e \<in> set (edges g ! s)" using qsub that(2) by blast
    from queue_edge [OF ok s this] show ?thesis
      by (intro inSameSet_comp0 [OF pinv]) auto
  qed
  have fold: "foldE (scan_src ?p) ?srcs (?qs, None)
         = Inr (clean ?P ?srcs ?qs, fold (\<lambda>s b. pick b (?D s)) ?srcs None)"
  proof (rule scan_fold_eq [OF srcs(2)])
    show "s < length ?qs" if "s \<in> set ?srcs" for s
      using that srcs comp0_below lenq by auto
    show "inSameSet ?p e = Inr (?P e)" if "s \<in> set ?srcs" "e \<in> set (?qs ! s)" for s e
      using same that .
  qed
  text \<open>An edge of the graph leaves the first set, and the best one is the heaviest.\<close>
  have crossing_in: "\<exists>s\<in>?S. \<exists>t r. ?D s = t # r \<and> lp e \<le> lp t"
    if e: "e \<in> ?E" "crossing ?S e" for e
  proof -
    obtain s where s: "s \<in> ?S" "s = row1 e \<or> s = row2 e"
      using e(2) by (auto simp: crossing_def)
    have sK: "s < ?K" using s(1) by (rule comp0_below)
    have "e \<in> set (edges g ! s)" using edge_set_queue(3,4) [OF ok e(1)] s(2) by auto
    moreover have nP: "\<not> ?P e" using e(2) by (auto simp: crossing_def)
    ultimately have "e \<in> set (?qs ! s)" using qold [OF sK] by blast
    then have mem: "e \<in> set (?D s)" using nP by (simp add: dropWhile_keeps)
    then obtain t r where tr: "?D s = t # r" by (cases "?D s") auto
    have "sorted_wrt (\<lambda>a b. lp b \<le> lp a) (?D s)"
      using qsrt [OF sK] by (rule sorted_wrt_dropWhile)
    then have "lp e \<le> lp t" using mem unfolding tr by auto
    then show ?thesis using s(1) tr by blast
  qed
  have "card ?S < ?K" using nsets n by linarith
  then obtain w where w: "w < ?K" "w \<notin> ?S"
    by (metis card_lessThan lessThan_iff subsetI subset_antisym comp0_below less_irrefl)
  have "(0, w) \<in> (adj ?E)\<^sup>*" using con Kpos w(1) by (auto simp: connects_def)
  from last_crossing [OF this w(2)] S0
  obtain x y where xy: "x \<in> ?S" "y \<notin> ?S" "(x, y) \<in> adj ?E" by blast
  then obtain e0 where e0: "e0 \<in> ?E" "crossing ?S e0"
    by (auto elim!: adj_cases simp: crossing_def)
  have "fold (\<lambda>s b. pick b (?D s)) ?srcs None \<noteq> None"
  proof
    assume "fold (\<lambda>s b. pick b (?D s)) ?srcs None = None"
    then have "\<forall>s\<in>set ?srcs. ?D s = []"
      using pick_fold_None [of ?D ?srcs None] by blast
    moreover obtain s1 t1 r1 where "s1 \<in> ?S" "?D s1 = t1 # r1"
      using crossing_in [OF e0] by blast
    ultimately show False unfolding srcs(1) by (metis list.distinct(1))
  qed
  then obtain b where b: "fold (\<lambda>s b. pick b (?D s)) ?srcs None = Some b"
    by (meson not_None_eq)
  note pb = pick_fold_Some [OF b]
  obtain s r where s: "s \<in> ?S" "?D s = b # r" using pb srcs(1) by auto
  have sK: "s < ?K" using s(1) by (rule comp0_below)
  have bq: "b \<in> set (?qs ! s)" and bnP: "\<not> ?P b"
    using s(2) by (auto simp: dropWhile_eq_Cons_conv) (metis in_set_conv_decomp)+
  have bg: "b \<in> set (edges g ! s)" using qsub [OF sK] bq by blast
  note be = queue_edge [OF ok sK bg]
  obtain v where v: "v \<notin> ?S" "v < ?K"
    "(row1 b = s \<and> row2 b = v) \<or> (row1 b = v \<and> row2 b = s)"
    using be bnP s(1) by (metis less_trans)
  have mx: "lp e \<le> lp b" if h: "e \<in> ?E" "crossing ?S e" for e
  proof -
    obtain s' t r' where st: "s' \<in> ?S" "?D s' = t # r'" "lp e \<le> lp t"
      using crossing_in [OF h] by blast
    have "lp t \<le> lp b" using pb st(1,2) srcs(1) by blast
    then show ?thesis using st(3) by linarith
  qed
  text \<open>The merge and the new state.\<close>
  obtain p' where p': "merge ?p b = Inr p'" "part_inv ?K p'" "comp0 ?K p' = insert v ?S"
    using merge_crossing [OF pinv s(1) v(2,1) v(3)] by blast
  let ?st = "\<lparr>part = p', queues = clean ?P ?srcs ?qs, chosen = ?es @ [b]\<rparr>"
  have step: "mst_step st = Inr ?st"
    unfolding mst_step_def front frontS by (simp add: fold b p'(1))
  have "queue_inv g (insert v ?S) (clean ?P ?srcs ?qs)"
    by (rule queue_inv_clean [OF qinv]) auto
  moreover have "tree_inv ?K ?E (insert v ?S) (?es @ [b])"
    by (rule tree_inv_step [OF tinv _ be(1) s(1) sK v(1,2) v(3) mx]) simp_all
  ultimately have "mst_inv g ?st" using p'(2,3) by (simp add: mst_inv_def)
  then show ?thesis using step by blast
qed

subsection \<open>The result of minSpanTree\<close>

lemma mst_inv_init:
  assumes ok: "graph_ok g" and K: "0 < nSeqs g"
  shows "mst_inv g \<lparr>part = Partition_new (nSeqs g), queues = edges g, chosen = []\<rparr>"
proof -
  let ?K = "nSeqs g"
  have c: "comp0 ?K (Partition_new ?K) = {0}"
    using K by (auto simp: comp0_def Partition_new_eq)
  have "queue_inv g {0} (edges g)"
    using ok unfolding queue_inv_def graph_ok_def by blast
  moreover have "tree_inv ?K (edge_set g) {0} []"
    unfolding tree_inv_def by auto
  ultimately show ?thesis using part_inv_new [OF K] by (simp add: mst_inv_def c)
qed

lemma mst_loop_inv:
  assumes ok: "graph_ok g" and con: "connects (nSeqs g) (edge_set g)"
  shows "mst_inv g st \<Longrightarrow> \<exists>st'. mst_loop st = Inr st' \<and> mst_inv g st' \<and> nSets (part st') \<le> 1"
proof (induction st rule: mst_loop.induct)
  case (1 st)
  show ?case
  proof (cases "1 < nSets (part st)")
    case True
    obtain st1 where st1: "mst_step st = Inr st1" "mst_inv g st1"
      using mst_step_inv [OF ok con "1.prems" True] by blast
    obtain st' where st': "mst_loop st1 = Inr st'" "mst_inv g st'" "nSets (part st') \<le> 1"
      using "1.IH" [OF True st1] by blast
    have "mst_loop st = mst_loop st1"
      by (subst mst_loop.simps) (use True st1(1) in simp)
    then show ?thesis using st' by auto
  next
    case False
    have "mst_loop st = Inr st"
      by (subst mst_loop.simps) (use False in simp)
    then show ?thesis using "1.prems" False by auto
  qed
qed

text \<open>
  C7. For a graph as the constructor builds it, over at least one sequence and with edges
  that connect all its vertices, \<open>minSpanTree\<close> returns (it neither fails nor runs for
  ever) the paths of a list of edges that it has chosen: one edge less than there are
  sequences, all different, forming a spanning tree of the edges of the graph, and of a
  total score that no spanning tree of these edges exceeds.
\<close>

theorem minSpanTree_maximum:
  assumes ok: "graph_ok g" and K: "0 < nSeqs g"
    and con: "connects (nSeqs g) (edge_set g)"
  shows "\<exists>es. mst_edges g = Inr es
            \<and> minSpanTree g = Inr (map (path_of g) es)
            \<and> length es + 1 = nSeqs g
            \<and> distinct es
            \<and> spanning_tree (nSeqs g) (edge_set g) (set es)
            \<and> (\<forall>T. spanning_tree (nSeqs g) (edge_set g) T \<longrightarrow> total_lp T \<le> sum_list (map lp es))"
proof -
  let ?K = "nSeqs g" and ?E = "edge_set g"
  obtain st where st: "mst_loop \<lparr>part = Partition_new ?K, queues = edges g, chosen = []\<rparr> = Inr st"
    "mst_inv g st" "nSets (part st) \<le> 1"
    using mst_loop_inv [OF ok con mst_inv_init [OF ok K]] by blast
  let ?es = "chosen st" and ?S = "comp0 ?K (part st)"
  have pinv: "part_inv ?K (part st)" and tinv: "tree_inv ?K ?E ?S ?es"
    using st(2) by (simp_all add: mst_inv_def)
  have nsets: "nSets (part st) + card ?S = ?K + 1" using pinv by (simp add: part_inv_def)
  have d: "distinct ?es" and sub: "set ?es \<subseteq> ?E"
    and con0: "\<And>x. x \<in> ?S \<Longrightarrow> (0, x) \<in> (adj (set ?es))\<^sup>*"
    and card: "card ?S = length ?es + 1"
    and opt: "\<And>T. spanning_tree ?K ?E T \<Longrightarrow>
               \<exists>T'. spanning_tree ?K ?E T' \<and> set ?es \<subseteq> T' \<and> total_lp T \<le> total_lp T'"
    using tinv unfolding tree_inv_def by blast+
  have subS: "?S \<subseteq> {..<?K}" by (auto simp: comp0_def)
  then have "card ?S \<le> ?K" using card_mono [of "{..<?K}" ?S] by simp
  then have cS: "card ?S = ?K" using nsets st(3) by linarith
  then have S: "?S = {..<?K}" using subS by (simp add: card_subset_eq)
  have len: "length ?es + 1 = ?K" using card cS by simp
  have "connects ?K (set ?es)"
    unfolding connects_def
  proof
    fix uv assume "uv \<in> {..<?K} \<times> {..<?K}"
    then obtain u v where uv: "uv = (u, v)" "u \<in> ?S" "v \<in> ?S" using S by auto
    have "(u, 0) \<in> (adj (set ?es))\<^sup>*" using con0 [OF uv(2)] by (rule adj_star_sym)
    then show "uv \<in> (adj (set ?es))\<^sup>*" unfolding uv(1) using con0 [OF uv(3)] by (rule rtrancl_trans)
  qed
  then have tree: "spanning_tree ?K ?E (set ?es)"
    using sub len d by (simp add: spanning_tree_def distinct_card)
  have w: "total_lp (set ?es) = sum_list (map lp ?es)"
    unfolding total_lp_def using d by (rule sum.distinct_set_conv_list)
  have mx: "total_lp T \<le> sum_list (map lp ?es)" if "spanning_tree ?K ?E T" for T
    using spanning_tree_maximal [OF tree opt that] w by simp
  have e: "mst_edges g = Inr ?es" by (simp add: mst_edges_def st(1))
  then have "minSpanTree g = Inr (map (path_of g) ?es)" by (simp add: minSpanTree_def)
  then show ?thesis using e len d tree mx by blast
qed

text \<open>
  Lazy deletion: what the cleaning of a queue removes are edges with both ends in one
  set, and every other edge of the queue stays in it.
\<close>

lemma drop_stale_keeps_valid:
  assumes "drop_stale p q = Inr q'" and "e \<in> set q"
  shows "e \<in> set q' \<or> inSameSet p e = Inr True"
  using assms
  by (induction q) (auto split: sum.splits bool.splits)

text \<open>
  A graph on three sequences: the edges (0,1), (0,2) and (1,2) with scores -1, -3 and -2.
\<close>

definition g3 :: AlignGraph where
  "g3 = \<lparr>nSeqs = 3,
         edges = [[edge 0 1 (- 1), edge 0 2 (- 3)],
                  [edge 0 1 (- 1), edge 1 2 (- 2)],
                  [edge 1 2 (- 2), edge 0 2 (- 3)]],
         edgePath = [Map.empty, Map.empty, Map.empty]\<rparr>"

lemma connects_star:
  assumes "\<And>v. v < K \<Longrightarrow> (0, v) \<in> (adj T)\<^sup>*"
  shows "connects K T"
  unfolding connects_def
proof
  fix uv assume "uv \<in> {..<K} \<times> {..<K}"
  then obtain u v where uv: "uv = (u, v)" "u < K" "v < K" by auto
  have "(u, 0) \<in> (adj T)\<^sup>*" using assms [OF uv(2)] by (rule adj_star_sym)
  then show "uv \<in> (adj T)\<^sup>*" unfolding uv(1) using assms [OF uv(3)] by (rule rtrancl_trans)
qed

lemma less3: "v < (3::nat) \<longleftrightarrow> v = 0 \<or> v = 1 \<or> v = 2"
  by auto

lemma g3_ok: "graph_ok g3"
  unfolding graph_ok_def
  by (simp add: less3 g3_def edge_def) 

lemma g3_connected: "connects (nSeqs g3) (edge_set g3)"
proof (rule connects_star)
  fix v assume "v < nSeqs g3"
  then have v: "v = 0 \<or> v = 1 \<or> v = 2" by (simp add: g3_def less3)
  have "(0, 1) \<in> adj (edge_set g3)" "(0, 2) \<in> adj (edge_set g3)"
    by (simp_all add: adj_def edge_set_def g3_def edge_def image_Un)
  then show "(0, v) \<in> (adj (edge_set g3))\<^sup>*" using v by auto
qed

lemma g3_run: "mst_edges g3 = Inr [edge 0 1 (- 1), edge 1 2 (- 2)]"
  by (simp add: mst_edges_def g3_def mst_loop.simps mst_step_def Partition_new_eq upt3 scan_src_def
      inSameSet_def edge_def merge_def Let_def relabel_def dec_size_t_def)

theorem minSpanTree_maximum_witness:
  "graph_ok g3 \<and> 0 < nSeqs g3 \<and> connects (nSeqs g3) (edge_set g3)
   \<and> mst_edges g3 = Inr [edge 0 1 (- 1), edge 1 2 (- 2)]
   \<and> minSpanTree g3 = Inr (map (path_of g3) [edge 0 1 (- 1), edge 1 2 (- 2)])
   \<and> spanning_tree (nSeqs g3) (edge_set g3) (set [edge 0 1 (- 1), edge 1 2 (- 2)])"
proof -
  have K: "0 < nSeqs g3" by (simp add: g3_def)
  from minSpanTree_maximum [OF g3_ok K g3_connected] g3_run
  show ?thesis using g3_ok K g3_connected by auto
qed

section \<open>sumprod.cpp: the substitution counts of a column\<close>






subsection \<open>fillDown and the posterior of a branch\<close>




subsection \<open>The direct path\<close>







subsection \<open>The fast path\<close>




subsection \<open>Sums over states\<close>






subsection \<open>When the two paths agree\<close>
















subsection \<open>One branch on the direct path\<close>







subsection \<open>One branch on the fast path\<close>








subsection \<open>All the branches of a column\<close>





subsection \<open>The column of likelihood zero\<close>

lemma example_logG [simp]: "logG (example_init g) = [[0, 0], [0, 0], [0, 0]]"
  by (simp add: example_init_def AlignColSumProduct_init_def jc2_size numeral_3_eq_3
      numeral_2_eq_2 nodes_def tree3_def)

lemma example_eigen [simp]: "eigen (example_init g) = jc2"
  by (simp add: example_init_def AlignColSumProduct_init_def)











subsection \<open>A column on branches of length one\<close>

































end
